theory Spec2Isabelle
  imports
    Complex_Main
    "HOL-Library.Multiset"
    "HOL-Library.Dlist"
    "HOL-Library.Char_ord"
    "HOL-Library.List_Lexorder"
begin

section \<open>Keyword annotation utilities: candidate construction and overlap scoring\<close>

text \<open>
  A shallow embedding of \<^verbatim>\<open>utils/prepare_data.py\<close>, \<^verbatim>\<open>utils/add_samples.py\<close> and
  \<^verbatim>\<open>utils/compute_annotation_overlap.py\<close>.

  Conventions of the embedding:
  \<^item> a Python \<^verbatim>\<open>str\<close> is a \<open>string\<close>, a Python \<^verbatim>\<open>list\<close> a HOL list, a Python
    \<^verbatim>\<open>int\<close> an \<open>int\<close>;
  \<^item> a Python \<^verbatim>\<open>float\<close> is idealised as a \<open>real\<close>: rounding is not modelled;
  \<^item> a Python \<^verbatim>\<open>set\<close> of strings that is only tested and measured is a \<open>string set\<close>;
    the global keyword pool, which is also enumerated by \<^verbatim>\<open>list(...)\<close>, is a
    \<open>string dlist\<close>: a duplicate-free list in some iteration order;
  \<^item> a Python \<^verbatim>\<open>dict\<close> that is iterated is an association list in insertion order,
    one that is only looked up is a map;
  \<^item> an exception is the \<open>Inl\<close> branch of a sum type;
  \<^item> the process-wide random generator is an explicit tape of draws that is passed
    through the calls and returned.
\<close>

subsection \<open>Errors\<close>

datatype error = ValueError string | OSError string

subsection \<open>The randomness source\<close>

text \<open>
  The generator is the infinite tape of raw draws still to come. \<^verbatim>\<open>_randbelow(n)\<close>
  consumes one draw and returns a number below \<open>n\<close>; every number below \<open>n\<close> is
  returned for some tape.
\<close>

type_synonym rng = "nat \<Rightarrow> nat"

definition randbelow :: "rng \<Rightarrow> nat \<Rightarrow> nat \<times> rng" where
  "randbelow g n = (g 0 mod n, g \<circ> Suc)"

definition zero_rng :: rng where
  "zero_rng = (\<lambda>_. 0)"

text \<open>
  \<^verbatim>\<open>random.sample(population, k)\<close> of the standard library, in its pool form:
  \<^verbatim>\<open>
    n = len(population)
    if not 0 <= k <= n:
        raise ValueError("Sample larger than population or is negative")
    result = [None] * k
    pool = list(population)
    for i in range(k):
        j = randbelow(n - i)
        result[i] = pool[j]
        pool[j] = pool[n - i - 1]
    return result
  \<close>
  \<open>sample_pool g pool m d\<close> runs the last \<open>d\<close> rounds of the loop, \<open>m = n - i\<close> being the
  number of pool entries still live. (For large populations the library tracks the
  chosen positions in a set instead of moving pool entries; the lists it can return
  are the same.)
\<close>

fun sample_pool :: "rng \<Rightarrow> 'a list \<Rightarrow> nat \<Rightarrow> nat \<Rightarrow> 'a list \<times> rng" where
  "sample_pool g pool m 0 = ([], g)"
| "sample_pool g pool m (Suc d) =
     (let (j, g') = randbelow g m;
          (rest, g'') = sample_pool g' (pool[j := pool ! (m - 1)]) (m - 1) d
      in (pool ! j # rest, g''))"

definition random_sample :: "rng \<Rightarrow> 'a list \<Rightarrow> int \<Rightarrow> error + ('a list \<times> rng)" where
  "random_sample g population k =
     (let n = length population in
      if \<not> (0 \<le> k \<and> k \<le> int n)
      then Inl (ValueError ''Sample larger than population or is negative'')
      else Inr (sample_pool g population n (nat k)))"

text \<open>
  \<^verbatim>\<open>random.shuffle(x)\<close> of the standard library:
  \<^verbatim>\<open>
    for i in reversed(range(1, len(x))):
        j = randbelow(i + 1)
        x[i], x[j] = x[j], x[i]
  \<close>
  \<open>shuffle_loop g x i\<close> runs the rounds \<open>i, i - 1, ..., 1\<close>. The list is shuffled in
  place; the model returns the shuffled list.
\<close>

fun shuffle_loop :: "rng \<Rightarrow> 'a list \<Rightarrow> nat \<Rightarrow> 'a list \<times> rng" where
  "shuffle_loop g x 0 = (x, g)"
| "shuffle_loop g x (Suc i) =
     (let (j, g') = randbelow g (Suc i + 1)
      in shuffle_loop g' (x[Suc i := x ! j, j := x ! Suc i]) i)"

definition random_shuffle :: "rng \<Rightarrow> 'a list \<Rightarrow> 'a list \<times> rng" where
  "random_shuffle g x = shuffle_loop g x (length x - 1)"

subsection \<open>Candidate construction\<close>

definition sentinel :: string where
  "sentinel = ''None of the above''"

text \<open>
  The choice of distractors, \<^verbatim>\<open>prepare_data.py\<close> lines 129-138 and
  \<^verbatim>\<open>add_samples.py\<close> lines 138-147 (the same text in both files).
\<close>

definition choose_distractors ::
  "rng \<Rightarrow> string list \<Rightarrow> int \<Rightarrow> string list \<Rightarrow> error + (string list \<times> rng)" where
  "choose_distractors g true_keywords num_distractors all_keywords_list =
     (let possible_distractors = filter (\<lambda>k. k \<notin> set true_keywords) all_keywords_list in
      if int (length possible_distractors) < num_distractors
      then Inr (possible_distractors, g)
      else random_sample g possible_distractors num_distractors)"

text \<open>
  The body of the loop over the sampled characters in \<^verbatim>\<open>prepare_data.py\<close>
  (lines 115-142): the candidates of one character. The shuffled list is the one that
  is written to the output row.
\<close>

definition prepare_candidates ::
  "rng \<Rightarrow> string list \<Rightarrow> int \<Rightarrow> string list \<Rightarrow> error + (string list \<times> rng)" where
  "prepare_candidates g true_keywords candidate_pool_size all_keywords_list =
     (let num_true = int (length true_keywords);
          num_distractors = candidate_pool_size - num_true
      in case (if num_distractors < 0
               then random_sample g true_keywords candidate_pool_size
               else (case choose_distractors g true_keywords num_distractors all_keywords_list of
                       Inl e \<Rightarrow> Inl e
                     | Inr (distractors, g') \<Rightarrow> Inr (true_keywords @ distractors, g')))
         of Inl e \<Rightarrow> Inl e
          | Inr (candidates, g') \<Rightarrow> Inr (random_shuffle g' candidates))"

text \<open>
  The same loop body in \<^verbatim>\<open>add_samples.py\<close> (lines 124-153): after the shuffle the
  sentinel is appended.
\<close>

definition add_candidates ::
  "rng \<Rightarrow> string list \<Rightarrow> int \<Rightarrow> string list \<Rightarrow> error + (string list \<times> rng)" where
  "add_candidates g true_keywords candidate_pool_size all_keywords_list =
     (let num_true = int (length true_keywords);
          num_distractors = candidate_pool_size - num_true
      in case (if num_distractors < 0
               then random_sample g true_keywords candidate_pool_size
               else (case choose_distractors g true_keywords num_distractors all_keywords_list of
                       Inl e \<Rightarrow> Inl e
                     | Inr (distractors, g') \<Rightarrow> Inr (true_keywords @ distractors, g')))
         of Inl e \<Rightarrow> Inl e
          | Inr (candidates, g') \<Rightarrow>
              (let (shuffled, g'') = random_shuffle g' candidates
               in Inr (shuffled @ [sentinel], g'')))"

subsection \<open>Loading the biography file\<close>

text \<open>\<^verbatim>\<open>str.endswith\<close>.\<close>

definition endswith :: "string \<Rightarrow> string \<Rightarrow> bool" where
  "endswith s suf \<longleftrightarrow> length suf \<le> length s \<and> drop (length s - length suf) s = suf"

text \<open>
  \<^verbatim>\<open>sub in s\<close> on strings: some tail of \<open>s\<close> starts with \<open>sub\<close>.
\<close>

fun is_substring :: "string \<Rightarrow> string \<Rightarrow> bool" where
  "is_substring sub [] \<longleftrightarrow> sub = []"
| "is_substring sub (c # s) \<longleftrightarrow> take (length sub) (c # s) = sub \<or> is_substring sub s"

text \<open>
  \<^verbatim>\<open>load_bio_file\<close> (the same text in \<^verbatim>\<open>prepare_data.py\<close> and \<^verbatim>\<open>add_samples.py\<close>,
  lines 13-24). The file system and the three parsers (\<^verbatim>\<open>load_jsonl\<close>, \<^verbatim>\<open>json.load\<close>
  on the opened file, \<^verbatim>\<open>pd.read_csv(...).to_dict('records')\<close>) are parameters: each
  maps a path to the records read from it or to the error raised while reading.
\<close>

definition load_bio_file ::
  "(string \<Rightarrow> error + 'r list) \<Rightarrow> (string \<Rightarrow> error + 'r list) \<Rightarrow> (string \<Rightarrow> error + 'r list)
     \<Rightarrow> string \<Rightarrow> error + 'r list" where
  "load_bio_file load_jsonl json_load read_csv_records bio_file_path =
     (if endswith bio_file_path ''.jsonl'' then load_jsonl bio_file_path
      else if endswith bio_file_path ''.json'' then json_load bio_file_path
      else if endswith bio_file_path ''.csv'' then read_csv_records bio_file_path
      else Inl (ValueError ''Unknown bio file format''))"

text \<open>A reader that finds no file anywhere.\<close>

definition no_such_file :: "string \<Rightarrow> error + unit list" where
  "no_such_file path = Inl (OSError path)"

subsection \<open>Joining biographies with model outputs, and sampling (append flow)\<close>

text \<open>
  The records read from the input files. A field that the code reads with \<^verbatim>\<open>.get\<close>
  is optional (\<open>None\<close>: the key is absent); a field that it reads by subscript is
  required by the input format.
\<close>

record bio_item =
  bio_character_json :: "string option"
  bio_id :: "string option"
  bio_character_name :: "string option"
  bio_name :: "string option"
  bio_biography :: "string option"

record model_item =
  character_json :: string
  personality_keywords :: "(string \<rightharpoonup> string list) option"

text \<open>A line of the annotation file, as both flows write it.\<close>

record output_row =
  row_id :: string
  row_text :: string
  row_candidates :: "string list"
  row_model_keywords :: "string list"

text \<open>An entry of \<^verbatim>\<open>available_data\<close> (\<^verbatim>\<open>joined_data\<close> in the prepare flow).\<close>

record joined_item =
  item_id :: string
  item_name :: string
  item_biography :: string
  item_model_keywords :: "string list"

text \<open>
  \<^verbatim>\<open>a or b\<close> on optional strings: \<open>a\<close> when it is truthy (present and not empty),
  \<open>b\<close> otherwise.
\<close>

definition py_or :: "string option \<Rightarrow> string option \<Rightarrow> string option" where
  "py_or a b = (case a of None \<Rightarrow> b | Some s \<Rightarrow> if s \<noteq> [] then a else b)"

text \<open>\<^verbatim>\<open>{item['id'] for item in existing_data}\<close>\<close>

definition used_ids_of :: "output_row list \<Rightarrow> string set" where
  "used_ids_of existing_data = set (map row_id existing_data)"

text \<open>\<^verbatim>\<open>{item['character_json']: item for item in model_data}\<close>: a later entry replaces
  an earlier one with the same key.\<close>

definition model_lookup_of :: "model_item list \<Rightarrow> (string \<rightharpoonup> model_item)" where
  "model_lookup_of model_data = fold (\<lambda>item lookup. lookup(character_json item \<mapsto> item)) model_data Map.empty"

text \<open>\<^verbatim>\<open>model_item.get('personality_keywords', {}).get('English', [])\<close>\<close>

definition english_keywords :: "model_item \<Rightarrow> string list" where
  "english_keywords model_item =
     (case personality_keywords model_item of
        None \<Rightarrow> []
      | Some by_language \<Rightarrow> (case by_language ''English'' of None \<Rightarrow> [] | Some keywords \<Rightarrow> keywords))"

text \<open>
  \<^verbatim>\<open>bio_item.get('character_name') or bio_item.get('name', 'Unknown')\<close>
\<close>

definition display_name :: "bio_item \<Rightarrow> string" where
  "display_name bio_item =
     (let fallback = (case bio_name bio_item of None \<Rightarrow> ''Unknown'' | Some n \<Rightarrow> n)
      in case bio_character_name bio_item of
           None \<Rightarrow> fallback
         | Some n \<Rightarrow> if n \<noteq> [] then n else fallback)"

text \<open>
  One round of the join loop of \<^verbatim>\<open>add_samples.py\<close> (lines 84-106) on the pair
  \<open>(available_data, all_keywords_pool)\<close>. \<^verbatim>\<open>all_keywords_pool.update(keywords)\<close> adds
  the keywords that are new to the pool.
\<close>

definition add_join_step ::
  "string set \<Rightarrow> (string \<rightharpoonup> model_item) \<Rightarrow> bio_item
     \<Rightarrow> joined_item list \<times> string dlist \<Rightarrow> joined_item list \<times> string dlist" where
  "add_join_step used_ids model_lookup bio_item acc =
     (case acc of (available_data, all_keywords_pool) \<Rightarrow>
        (case py_or (bio_character_json bio_item) (bio_id bio_item) of
           None \<Rightarrow> acc
         | Some char_id \<Rightarrow>
             if char_id = [] \<or> char_id \<in> used_ids then acc
             else (case model_lookup char_id of
                     None \<Rightarrow> acc
                   | Some model_item \<Rightarrow>
                       (let keywords = english_keywords model_item in
                        if keywords \<noteq> []
                        then (available_data @
                                [\<lparr>item_id = char_id,
                                  item_name = display_name bio_item,
                                  item_biography =
                                    (case bio_biography bio_item of None \<Rightarrow> [] | Some b \<Rightarrow> b),
                                  item_model_keywords = keywords\<rparr>],
                              fold Dlist.insert keywords all_keywords_pool)
                        else acc))))"

definition add_join ::
  "output_row list \<Rightarrow> model_item list \<Rightarrow> bio_item list \<Rightarrow> joined_item list \<times> string dlist" where
  "add_join existing_data model_data bio_data =
     fold (add_join_step (used_ids_of existing_data) (model_lookup_of model_data)) bio_data
       ([], Dlist.empty)"

text \<open>The choice of the new samples, \<^verbatim>\<open>add_samples.py\<close> lines 111-117.\<close>

definition add_select ::
  "rng \<Rightarrow> joined_item list \<Rightarrow> int \<Rightarrow> error + (joined_item list \<times> rng)" where
  "add_select g available_data num_samples =
     (if int (length available_data) < num_samples
      then Inr (available_data, g)
      else random_sample g available_data num_samples)"

text \<open>
  The characters that the append flow can choose from, in the words of the
  specification: the identifier resolves (primary field, then fallback field), it is not
  in the exclusion set, and the model output of that identifier has a non-empty list of
  English keywords.
\<close>

definition is_available :: "string set \<Rightarrow> (string \<rightharpoonup> model_item) \<Rightarrow> bio_item \<Rightarrow> bool" where
  "is_available used_ids model_lookup bio_item \<longleftrightarrow>
     (case py_or (bio_character_json bio_item) (bio_id bio_item) of
        None \<Rightarrow> False
      | Some char_id \<Rightarrow>
          char_id \<noteq> [] \<and> char_id \<notin> used_ids
          \<and> (case model_lookup char_id of
                None \<Rightarrow> False
              | Some model_item \<Rightarrow> english_keywords model_item \<noteq> []))"

text \<open>
  The append example of the specification: an existing file with the identifiers
  \<open>a\<close> and \<open>b\<close>, and five characters with biographies and model outputs, one of them
  \<open>a\<close>.
\<close>

definition append_example_existing :: "output_row list" where
  "append_example_existing =
     [\<lparr>row_id = ''a'', row_text = ''<h1>A</h1><p></p>'',
       row_candidates = [''calm'', ''None of the above''], row_model_keywords = [''calm'']\<rparr>,
      \<lparr>row_id = ''b'', row_text = ''<h1>B</h1><p></p>'',
       row_candidates = [''bold'', ''None of the above''], row_model_keywords = [''bold'']\<rparr>]"

definition append_example_models :: "model_item list" where
  "append_example_models =
     map (\<lambda>(cid, kw). \<lparr>character_json = cid,
                        personality_keywords = Some [''English'' \<mapsto> [kw]]\<rparr>)
       [(''a'', ''calm''), (''c'', ''shy''), (''d'', ''kind''), (''e'', ''loyal''), (''f'', ''brave'')]"

definition append_example_bios :: "bio_item list" where
  "append_example_bios =
     map (\<lambda>cid. \<lparr>bio_character_json = Some cid, bio_id = None, bio_character_name = None,
                  bio_name = Some cid, bio_biography = None\<rparr>)
       [''a'', ''c'', ''d'', ''e'', ''f'']"

subsection \<open>Overlap scoring\<close>

record original_instance =
  orig_id :: string
  orig_model_keywords :: "string list option"

text \<open>
  An annotated instance. \<open>label_annotations\<close> maps the name of an annotation scheme to
  the dictionary of the labels chosen in it, whose values are not read.
\<close>

record annotated_instance =
  instance_id :: "string option"
  ann_id :: "string option"
  user_id :: "string option"
  label_annotations :: "(string \<rightharpoonup> (string \<times> bool) list) option"

definition extract_model_keywords :: "original_instance \<Rightarrow> string set" where
  "extract_model_keywords instance =
     set (case orig_model_keywords instance of None \<Rightarrow> [] | Some keywords \<Rightarrow> keywords)"

definition extract_annotated_keywords :: "annotated_instance \<Rightarrow> string set" where
  "extract_annotated_keywords instance =
     (let annotations = (case label_annotations instance of None \<Rightarrow> Map.empty | Some la \<Rightarrow> la);
          valid_keywords = (case annotations ''valid_keywords'' of None \<Rightarrow> [] | Some vk \<Rightarrow> vk)
      in fold (\<lambda>keyword keywords.
                 if keyword \<noteq> ''None of the above'' then insert keyword keywords else keywords)
           (map fst valid_keywords) {})"

text \<open>
  \<^verbatim>\<open>compute_metrics\<close>. The dictionary it returns is the association list of its four
  entries in the order of the source.
\<close>

definition compute_metrics :: "string set \<Rightarrow> string set \<Rightarrow> (string \<times> real) list" where
  "compute_metrics predicted actual =
     (if predicted = {} \<and> actual = {}
      then [(''precision'', 1), (''recall'', 1), (''f1'', 1), (''jaccard'', 1)]
      else
        (let intersection = predicted \<inter> actual;
             union = predicted \<union> actual;
             precision = (if predicted \<noteq> {}
                          then real (card intersection) / real (card predicted) else 0);
             recall = (if actual \<noteq> {}
                       then real (card intersection) / real (card actual) else 0);
             f1 = (if precision + recall > 0
                   then 2 * precision * recall / (precision + recall) else 0);
             jaccard = (if union \<noteq> {}
                        then real (card intersection) / real (card union) else 0)
         in [(''precision'', precision), (''recall'', recall), (''f1'', f1),
             (''jaccard'', jaccard)]))"

text \<open>
  \<^verbatim>\<open>d[key].append(value)\<close> on a \<^verbatim>\<open>defaultdict(list)\<close>, kept as an association list in
  the order in which the keys were first used.
\<close>

fun dd_append :: "('k \<times> 'v list) list \<Rightarrow> 'k \<Rightarrow> 'v \<Rightarrow> ('k \<times> 'v list) list" where
  "dd_append [] key v = [(key, [v])]"
| "dd_append ((k, vs) # d) key v =
     (if k = key then (k, vs @ [v]) # d else (k, vs) # dd_append d key v)"

text \<open>\<^verbatim>\<open>d[key]\<close> on a \<^verbatim>\<open>defaultdict(list)\<close>.\<close>

definition dd_get :: "('k \<times> 'v list) list \<Rightarrow> 'k \<Rightarrow> 'v list" where
  "dd_get d key = (case map_of d key of None \<Rightarrow> [] | Some vs \<Rightarrow> vs)"

text \<open>
  \<^verbatim>\<open>compute_aggregate_metrics\<close>. Every value of a metrics dictionary is a number, so the
  \<^verbatim>\<open>isinstance\<close> test holds. \<^verbatim>\<open>result[f'{key}_mean']\<close> is read right after it was
  written; \<open>x ** 0.5\<close> on a float that is not negative is the square root.
\<close>

definition collect_values :: "(string \<times> real) list list \<Rightarrow> (string \<times> real list) list" where
  "collect_values all_metrics =
     fold (\<lambda>metrics aggregate.
             fold (\<lambda>(key, v) aggregate. dd_append aggregate key v) metrics aggregate)
       all_metrics []"

definition summarise :: "string \<times> real list \<Rightarrow> (string \<rightharpoonup> real) \<Rightarrow> (string \<rightharpoonup> real)" where
  "summarise entry result =
     (case entry of (key, vals) \<Rightarrow>
        if vals \<noteq> []
        then (let mean = sum_list vals / real (length vals)
              in result(key @ ''_mean'' \<mapsto> mean,
                        key @ ''_std'' \<mapsto>
                          sqrt (sum_list (map (\<lambda>x. (x - mean)\<^sup>2) vals) / real (length vals))))
        else result)"

definition compute_aggregate_metrics :: "(string \<times> real) list list \<Rightarrow> (string \<rightharpoonup> real)" where
  "compute_aggregate_metrics all_metrics =
     (if all_metrics = [] then Map.empty
      else fold summarise (collect_values all_metrics) Map.empty)"

text \<open>
  The notions of the specification of the aggregator: the values present for a metric
  key in a collection of metrics dictionaries (in the order of the collection), the
  keys present in it, the arithmetic mean, and the population standard deviation (the
  sum of the squared deviations from the mean is divided by the number of values).
\<close>

definition values_of :: "string \<Rightarrow> (string \<times> real) list list \<Rightarrow> real list" where
  "values_of key all_metrics =
     concat (map (\<lambda>metrics. map snd (filter (\<lambda>(k, v). k = key) metrics)) all_metrics)"

definition keys_of :: "(string \<times> real) list list \<Rightarrow> string set" where
  "keys_of all_metrics = (\<Union>metrics \<in> set all_metrics. fst ` set metrics)"

definition arithmetic_mean :: "real list \<Rightarrow> real" where
  "arithmetic_mean vals = sum_list vals / real (length vals)"

definition population_std :: "real list \<Rightarrow> real" where
  "population_std vals =
     sqrt (sum_list (map (\<lambda>x. (x - arithmetic_mean vals)\<^sup>2) vals) / real (length vals))"

text \<open>
  The invariant of the \<^verbatim>\<open>defaultdict\<close>: every key once, and no key without a value.
\<close>

definition dd_ok :: "('k \<times> 'v list) list \<Rightarrow> bool" where
  "dd_ok d \<longleftrightarrow> distinct (map fst d) \<and> (\<forall>(k, vs) \<in> set d. vs \<noteq> [])"

record instance_result =
  res_instance_id :: string
  res_model_keywords :: "string list"
  res_annotated_keywords :: "string list"
  res_metrics :: "(string \<times> real) list"

record user_result =
  total_instances :: nat
  aggregate_metrics :: "string \<rightharpoonup> real"
  per_instance :: "instance_result list"

text \<open>
  One round of the loop of \<^verbatim>\<open>compute_user_metrics\<close>: \<open>None\<close> where the source
  continues with the next instance, the entry appended to \<^verbatim>\<open>per_instance_results\<close>
  otherwise.
\<close>

definition score_instance ::
  "(string \<rightharpoonup> original_instance) \<Rightarrow> annotated_instance \<Rightarrow> instance_result option" where
  "score_instance original_lookup annotated_instance =
     (case py_or (instance_id annotated_instance) (ann_id annotated_instance) of
        None \<Rightarrow> None
      | Some iid \<Rightarrow>
          if iid = [] then None
          else (case original_lookup iid of
                  None \<Rightarrow> None
                | Some original \<Rightarrow>
                    (let model_keywords = extract_model_keywords original;
                         annotated_keywords = extract_annotated_keywords annotated_instance;
                         metrics = compute_metrics annotated_keywords model_keywords
                     in Some \<lparr>res_instance_id = iid,
                               res_model_keywords = sorted_list_of_set model_keywords,
                               res_annotated_keywords = sorted_list_of_set annotated_keywords,
                               res_metrics = metrics\<rparr>)))"

text \<open>
  \<^verbatim>\<open>compute_user_metrics\<close>: \<^verbatim>\<open>user_metrics\<close>, \<^verbatim>\<open>per_instance_results\<close> and
  \<^verbatim>\<open>total_instances\<close> grow together, once for every instance that is not skipped.
\<close>

definition compute_user_metrics ::
  "annotated_instance list \<Rightarrow> (string \<rightharpoonup> original_instance) \<Rightarrow> user_result" where
  "compute_user_metrics user_annotations original_lookup =
     (let per_instance_results = List.map_filter (score_instance original_lookup) user_annotations;
          user_metrics = map res_metrics per_instance_results
      in \<lparr>total_instances = length per_instance_results,
          aggregate_metrics = compute_aggregate_metrics user_metrics,
          per_instance = per_instance_results\<rparr>)"

text \<open>The scoring run, \<^verbatim>\<open>main\<close> of \<^verbatim>\<open>compute_annotation_overlap.py\<close>, lines 131-178.\<close>

definition original_lookup_of :: "original_instance list \<Rightarrow> (string \<rightharpoonup> original_instance)" where
  "original_lookup_of original_data =
     fold (\<lambda>item lookup. lookup(orig_id item \<mapsto> item)) original_data Map.empty"

definition group_by_user :: "annotated_instance list \<Rightarrow> (string \<times> annotated_instance list) list" where
  "group_by_user annotated_data =
     fold (\<lambda>annotated_instance user_to_annotations.
             case user_id annotated_instance of
               None \<Rightarrow> user_to_annotations
             | Some uid \<Rightarrow>
                 if uid \<noteq> [] then dd_append user_to_annotations uid annotated_instance
                 else user_to_annotations)
       annotated_data []"

definition user_results_of ::
  "original_instance list \<Rightarrow> annotated_instance list \<Rightarrow> (string \<times> user_result) list" where
  "user_results_of original_data annotated_data =
     (let original_lookup = original_lookup_of original_data;
          user_to_annotations = group_by_user annotated_data
      in map (\<lambda>uid. (uid, compute_user_metrics (dd_get user_to_annotations uid) original_lookup))
           (sort (map fst user_to_annotations)))"

definition all_instance_metrics_of :: "(string \<times> user_result) list \<Rightarrow> (string \<times> real) list list" where
  "all_instance_metrics_of user_results =
     concat (map (\<lambda>(uid, user_result). map res_metrics (per_instance user_result)) user_results)"

record score_report =
  overall_total_instances :: nat
  overall_aggregate_metrics :: "string \<rightharpoonup> real"
  per_user :: "(string \<times> user_result) list"

definition score_main :: "original_instance list \<Rightarrow> annotated_instance list \<Rightarrow> score_report" where
  "score_main original_data annotated_data =
     (let user_results = user_results_of original_data annotated_data;
          overall_metrics = compute_aggregate_metrics (all_instance_metrics_of user_results);
          total_all_instances = sum_list (map (\<lambda>(uid, r). total_instances r) user_results)
      in \<lparr>overall_total_instances = total_all_instances,
          overall_aggregate_metrics = overall_metrics,
          per_user = user_results\<rparr>)"

text \<open>
  The flat list of the specification: the metrics of every scored instance, in the
  order of the annotation file. An instance is scored when it names a user, its
  identifier resolves and the identifier is among the original records.
\<close>

definition has_user :: "annotated_instance \<Rightarrow> bool" where
  "has_user annotated_instance \<longleftrightarrow>
     (case user_id annotated_instance of None \<Rightarrow> False | Some uid \<Rightarrow> uid \<noteq> [])"

definition scored_metrics ::
  "(string \<rightharpoonup> original_instance) \<Rightarrow> annotated_instance list \<Rightarrow> (string \<times> real) list list" where
  "scored_metrics original_lookup annotated_data =
     map res_metrics
       (List.map_filter (score_instance original_lookup) (filter has_user annotated_data))"

text \<open>
  The example of the specification: annotator \<open>A\<close> scores one instance with an F1 of 0,
  annotator \<open>B\<close> three instances with an F1 of 1 each.
\<close>

definition overlap_example_original :: "original_instance list" where
  "overlap_example_original =
     map (\<lambda>iid. \<lparr>orig_id = iid, orig_model_keywords = Some [''brave'']\<rparr>)
       [''i1'', ''i2'', ''i3'', ''i4'']"

definition overlap_example_annotated :: "annotated_instance list" where
  "overlap_example_annotated =
     map (\<lambda>(uid, iid, keyword).
            \<lparr>instance_id = Some iid, ann_id = None, user_id = Some uid,
             label_annotations = Some [''valid_keywords'' \<mapsto> [(keyword, True)]]\<rparr>)
       [(''B'', ''i2'', ''brave''), (''A'', ''i1'', ''kind''),
        (''B'', ''i3'', ''brave''), (''B'', ''i4'', ''brave'')]"

section \<open>Properties\<close>

subsection \<open>The randomness source\<close>

lemma randbelow_less: "0 < n \<Longrightarrow> fst (randbelow g n) < n"
  by (simp add: randbelow_def)

text \<open>
  Every number below \<open>n\<close> is drawn by some tape, whatever the tape is to be afterwards:
  quantifying over the tapes covers every sequence of draws.
\<close>

lemma randbelow_onto:
  "j < n \<Longrightarrow> randbelow (\<lambda>i. case i of 0 \<Rightarrow> j | Suc i' \<Rightarrow> g' i') n = (j, g')"
  by (simp add: randbelow_def fun_eq_iff)

lemma take_pool_step:
  assumes "j < m" and "m \<le> length pool"
  shows "add_mset (pool ! j) (mset (take (m - 1) (pool[j := pool ! (m - 1)]))) = mset (take m pool)"
proof -
  obtain m' where m: "m = Suc m'"
    using assms(1) by (cases m) auto
  have m'len: "m' < length pool"
    using assms(2) m by simp
  have split: "take m pool = take m' pool @ [pool ! m']"
    using m m'len by (simp add: take_Suc_conv_app_nth)
  show ?thesis
  proof (cases "j = m'")
    case True
    then show ?thesis
      using split m by simp
  next
    case False
    then have jm': "j < m'"
      using assms(1) m by simp
    have "take m' (pool[j := pool ! m']) = (take m' pool)[j := pool ! m']"
      by (simp add: take_update_swap)
    moreover have "mset ((take m' pool)[j := pool ! m'])
        = add_mset (pool ! m') (mset (take m' pool) - {#take m' pool ! j#})"
      using jm' m'len by (simp add: mset_update)
    moreover have "take m' pool ! j = pool ! j"
      using jm' by simp
    moreover have "pool ! j \<in># mset (take m' pool)"
      using jm' m'len by (metis calculation(3) length_take min.absorb2 less_imp_le nth_mem set_mset_mset)
    ultimately show ?thesis
      using split m by simp
  qed
qed

lemma sample_pool_mset:
  "d \<le> m \<Longrightarrow> m \<le> length pool \<Longrightarrow> mset (fst (sample_pool g pool m d)) \<subseteq># mset (take m pool)"
proof (induction d arbitrary: g pool m)
  case 0
  then show ?case by simp
next
  case (Suc d)
  obtain j g' where rb: "randbelow g m = (j, g')"
    by (cases "randbelow g m")
  have jm: "j < m"
    using randbelow_less [of m g] Suc.prems rb by simp
  let ?pool' = "pool[j := pool ! (m - 1)]"
  have "mset (fst (sample_pool g' ?pool' (m - 1) d)) \<subseteq># mset (take (m - 1) ?pool')"
    using Suc.prems by (intro Suc.IH) auto
  then have "add_mset (pool ! j) (mset (fst (sample_pool g' ?pool' (m - 1) d)))
      \<subseteq># add_mset (pool ! j) (mset (take (m - 1) ?pool'))"
    by simp
  then have "add_mset (pool ! j) (mset (fst (sample_pool g' ?pool' (m - 1) d)))
      \<subseteq># mset (take m pool)"
    by (simp only: take_pool_step [OF jm Suc.prems(2)])
  moreover have "mset (fst (sample_pool g pool m (Suc d)))
      = add_mset (pool ! j) (mset (fst (sample_pool g' ?pool' (m - 1) d)))"
    using rb by (simp add: split_def Let_def)
  ultimately show ?case
    by simp
qed

lemma sample_pool_length: "length (fst (sample_pool g pool m d)) = d"
  by (induction d arbitrary: g pool m) (simp_all add: split_def Let_def)

lemma random_sample_Inr:
  assumes "0 \<le> k" and "k \<le> int (length xs)"
  shows "\<exists>ys g'. random_sample g xs k = Inr (ys, g') \<and> int (length ys) = k \<and> mset ys \<subseteq># mset xs"
proof -
  obtain ys g' where sp: "sample_pool g xs (length xs) (nat k) = (ys, g')"
    by (cases "sample_pool g xs (length xs) (nat k)")
  have "length ys = nat k"
    using sample_pool_length [of g xs "length xs" "nat k"] sp by simp
  moreover have "mset ys \<subseteq># mset xs"
    using sample_pool_mset [of "nat k" "length xs" xs g] assms sp by simp
  ultimately show ?thesis
    using assms sp by (simp add: random_sample_def)
qed

lemma random_sample_Inl:
  "(\<exists>e. random_sample g xs k = Inl e) \<longleftrightarrow> k < 0 \<or> int (length xs) < k"
  by (auto simp: random_sample_def Let_def)

lemma shuffle_loop_mset:
  "i < length x \<or> i = 0 \<Longrightarrow> mset (fst (shuffle_loop g x i)) = mset x"
proof (induction i arbitrary: g x)
  case 0
  then show ?case by simp
next
  case (Suc i)
  obtain j g' where rb: "randbelow g (Suc i + 1) = (j, g')"
    by (cases "randbelow g (Suc i + 1)")
  have jlt: "j < Suc i + 1"
    using randbelow_less [of "Suc i + 1" g] rb by simp
  let ?x' = "x[Suc i := x ! j, j := x ! Suc i]"
  have len: "Suc i < length x"
    using Suc.prems by simp
  have "mset (fst (shuffle_loop g' ?x' i)) = mset ?x'"
    using len by (intro Suc.IH) simp
  also have "mset ?x' = mset x"
    using len jlt by (simp add: mset_swap)
  finally show ?case
    using rb by simp
qed

lemma random_shuffle_mset: "mset (fst (random_shuffle g x)) = mset x"
  unfolding random_shuffle_def
  by (rule shuffle_loop_mset) (cases x, auto)

subsection \<open>Candidate construction\<close>

lemma choose_distractors_Inr:
  assumes "0 \<le> nd"
  shows "\<exists>ds g'. choose_distractors g tk nd pool = Inr (ds, g')
            \<and> mset ds \<subseteq># mset (filter (\<lambda>k. k \<notin> set tk) pool)
            \<and> length ds = min (nat nd) (length (filter (\<lambda>k. k \<notin> set tk) pool))"
proof (cases "int (length (filter (\<lambda>k. k \<notin> set tk) pool)) < nd")
  case True
  then show ?thesis
    by (simp add: choose_distractors_def)
next
  case False
  then have le: "nd \<le> int (length (filter (\<lambda>k. k \<notin> set tk) pool))"
    by simp
  from random_sample_Inr [OF assms le, of g]
  obtain ys g' where "random_sample g (filter (\<lambda>k. k \<notin> set tk) pool) nd = Inr (ys, g')"
    and "int (length ys) = nd" and "mset ys \<subseteq># mset (filter (\<lambda>k. k \<notin> set tk) pool)"
    by blast
  then show ?thesis
    using False assms by (auto simp: choose_distractors_def)
qed

lemma add_candidates_eq:
  "add_candidates g tk ps pool =
     (case prepare_candidates g tk ps pool of
        Inl e \<Rightarrow> Inl e
      | Inr (c, g') \<Rightarrow> Inr (c @ [sentinel], g'))"
  by (simp add: add_candidates_def prepare_candidates_def Let_def split: sum.splits prod.splits)

lemma prepare_candidates_neg:
  "ps < 0 \<Longrightarrow> \<exists>e. prepare_candidates g tk ps pool = Inl e"
  by (simp add: prepare_candidates_def random_sample_def Let_def)

lemma prepare_candidates_trunc:
  assumes "0 \<le> ps" and "ps < int (length tk)"
  shows "\<exists>c g'. prepare_candidates g tk ps pool = Inr (c, g')
           \<and> int (length c) = ps \<and> mset c \<subseteq># mset tk"
proof -
  from random_sample_Inr [of ps tk g] assms
  obtain ys g1 where rs: "random_sample g tk ps = Inr (ys, g1)"
    and len: "int (length ys) = ps" and sub: "mset ys \<subseteq># mset tk"
    by auto
  obtain c g' where sh: "random_shuffle g1 ys = (c, g')"
    by (cases "random_shuffle g1 ys")
  have "mset c = mset ys"
    using random_shuffle_mset [of g1 ys] sh by simp
  moreover from this have "length c = length ys"
    by (metis size_mset)
  ultimately show ?thesis
    using assms rs sh len sub by (simp add: prepare_candidates_def Let_def)
qed

lemma prepare_candidates_full:
  assumes "int (length tk) \<le> ps"
  shows "\<exists>ds g1 c g'. choose_distractors g tk (ps - int (length tk)) pool = Inr (ds, g1)
           \<and> prepare_candidates g tk ps pool = Inr (c, g')
           \<and> mset c = mset tk + mset ds"
proof -
  from choose_distractors_Inr [of "ps - int (length tk)" g tk pool] assms
  obtain ds g1 where cd: "choose_distractors g tk (ps - int (length tk)) pool = Inr (ds, g1)"
    by auto
  obtain c g' where sh: "random_shuffle g1 (tk @ ds) = (c, g')"
    by (cases "random_shuffle g1 (tk @ ds)")
  have "mset c = mset (tk @ ds)"
    using random_shuffle_mset [of g1 "tk @ ds"] sh by simp
  then show ?thesis
    using assms cd sh by (simp add: prepare_candidates_def Let_def)
qed


lemma prepare_candidates_cases:
  "(\<exists>e. prepare_candidates g tk ps pool = Inl e \<and> ps < 0)
   \<or> (\<exists>c g'. prepare_candidates g tk ps pool = Inr (c, g') \<and> 0 \<le> ps \<and> ps < int (length tk)
          \<and> int (length c) = ps \<and> mset c \<subseteq># mset tk)
   \<or> (\<exists>ds g1 c g'. int (length tk) \<le> ps
          \<and> choose_distractors g tk (ps - int (length tk)) pool = Inr (ds, g1)
          \<and> prepare_candidates g tk ps pool = Inr (c, g')
          \<and> mset c = mset tk + mset ds)"
proof -
  consider "ps < 0" | "0 \<le> ps" "ps < int (length tk)" | "int (length tk) \<le> ps"
    by linarith
  then show ?thesis
  proof cases
    case 1
    then show ?thesis
      using prepare_candidates_neg [of ps g tk pool] by blast
  next
    case 2
    then show ?thesis
      using prepare_candidates_trunc [of ps tk g pool] by blast
  next
    case 3
    then show ?thesis
      using prepare_candidates_full [of tk ps g pool] by blast
  qed
qed

lemma mset_subseteq_distinct:
  assumes "mset ys \<subseteq># mset xs" and "distinct xs"
  shows "distinct ys"
proof -
  have "count (mset ys) a = (if a \<in> set ys then 1 else 0)" for a
  proof -
    have "count (mset ys) a \<le> count (mset xs) a"
      using assms(1) by (rule mset_subset_eq_count)
    also have "\<dots> \<le> 1"
      using assms(2) by (simp add: distinct_count_atmost_1)
    finally have "count (mset ys) a \<le> 1" .
    then have le: "count (mset ys) a \<le> 1" .
    show ?thesis
    proof (cases "a \<in> set ys")
      case True
      then have "0 < count (mset ys) a"
        by (rule count_mset_gt_0)
      with le have "count (mset ys) a = 1"
        by linarith
      with True show ?thesis
        by (simp only: if_True)
    next
      case False
      then show ?thesis
        by simp
    qed
  qed
  then show ?thesis
    by (simp add: distinct_count_atmost_1)
qed

lemma choose_distractors_disjoint:
  assumes "choose_distractors g tk nd pool = Inr (ds, g')"
  shows "set ds \<inter> set tk = {} \<and> set ds \<subseteq> set pool \<and> (distinct pool \<longrightarrow> distinct ds)"
proof (cases "0 \<le> nd")
  case True
  from choose_distractors_Inr [OF True, of g tk pool] assms
  have sub: "mset ds \<subseteq># mset (filter (\<lambda>k. k \<notin> set tk) pool)"
    by auto
  then have "set ds \<subseteq> set (filter (\<lambda>k. k \<notin> set tk) pool)"
    by (metis set_mset_mono set_mset_mset)
  moreover have "distinct pool \<longrightarrow> distinct ds"
    using sub mset_subseteq_distinct [of ds "filter (\<lambda>k. k \<notin> set tk) pool"] by simp
  ultimately show ?thesis
    by auto
next
  case False
  then show ?thesis
    using assms by (auto simp: choose_distractors_def random_sample_def Let_def split: if_splits)
qed

text \<open>
  In the prepare flow the list of the same run has no sentinel: its length is the
  candidate pool size.
\<close>

lemma prepare_candidates_full_pool_length:
  assumes "int (length true_keywords) \<le> candidate_pool_size"
    and "candidate_pool_size - int (length true_keywords)
           \<le> int (length (filter (\<lambda>k. k \<notin> set true_keywords) all_keywords_list))"
  shows "\<exists>candidates g'.
           prepare_candidates g true_keywords candidate_pool_size all_keywords_list
             = Inr (candidates, g')
         \<and> int (length candidates) = candidate_pool_size"
proof -
  let ?nd = "candidate_pool_size - int (length true_keywords)"
  from prepare_candidates_full [OF assms(1), of g all_keywords_list]
  obtain ds g1 c g' where cd: "choose_distractors g true_keywords ?nd all_keywords_list = Inr (ds, g1)"
    and pc: "prepare_candidates g true_keywords candidate_pool_size all_keywords_list = Inr (c, g')"
    and ms: "mset c = mset true_keywords + mset ds"
    by blast
  have nd0: "0 \<le> ?nd"
    using assms(1) by simp
  from choose_distractors_Inr [OF nd0, of g true_keywords all_keywords_list] cd assms(2) nd0
  have "int (length ds) = ?nd"
    by auto
  moreover have "length c = length true_keywords + length ds"
    using ms by (metis length_append mset_append size_mset)
  ultimately show ?thesis
    using pc by simp
qed

text \<open>
  Claim C1, as amended. In the append flow (\<^verbatim>\<open>add_samples.py\<close>), when the number of
  true keywords is at most the candidate pool size and the eligible distractors (the
  global keyword pool without the true keywords) are at least as many as the places
  left, then for every tape of the randomness source a candidate list is emitted, its
  length is the candidate pool size plus one, its last entry is the sentinel, and every
  true keyword occurs among the entries before the last as often as it occurs in the
  true keywords. When moreover the true keywords are free of duplicates, every true
  keyword occurs exactly once among the entries before the last (so exactly once in the
  whole list unless it is the sentinel string itself), and these entries are free of
  duplicates.
\<close>

theorem add_candidates_full_pool:
  assumes "int (length true_keywords) \<le> candidate_pool_size"
    and "candidate_pool_size - int (length true_keywords)
           \<le> int (length (filter (\<lambda>k. k \<notin> set true_keywords) (list_of_dlist all_keywords_pool)))"
  shows "\<exists>candidates g'.
           add_candidates g true_keywords candidate_pool_size (list_of_dlist all_keywords_pool)
             = Inr (candidates, g')
         \<and> int (length candidates) = candidate_pool_size + 1
         \<and> last candidates = sentinel
         \<and> (\<forall>k \<in> set true_keywords.
               count_list (butlast candidates) k = count_list true_keywords k)
         \<and> (distinct true_keywords \<longrightarrow>
               (\<forall>k \<in> set true_keywords. count_list (butlast candidates) k = 1)
             \<and> (\<forall>k \<in> set true_keywords. k \<noteq> sentinel \<longrightarrow> count_list candidates k = 1)
             \<and> distinct (butlast candidates))"
proof -
  let ?pool = "list_of_dlist all_keywords_pool"
  let ?nd = "candidate_pool_size - int (length true_keywords)"
  from prepare_candidates_full [OF assms(1), of g ?pool]
  obtain ds g1 c g' where cd: "choose_distractors g true_keywords ?nd ?pool = Inr (ds, g1)"
    and pc: "prepare_candidates g true_keywords candidate_pool_size ?pool = Inr (c, g')"
    and ms: "mset c = mset true_keywords + mset ds"
    by blast
  have nd0: "0 \<le> ?nd"
    using assms(1) by simp
  from choose_distractors_Inr [OF nd0, of g true_keywords ?pool] cd assms(2) nd0
  have lends: "int (length ds) = ?nd"
    by auto
  from choose_distractors_disjoint [OF cd]
  have disj: "set ds \<inter> set true_keywords = {}" and dds: "distinct ds"
    by simp_all
  have "length c = length true_keywords + length ds"
    using ms by (metis length_append mset_append size_mset)
  then have len: "int (length c) = candidate_pool_size"
    using lends by simp
  have cnt: "count_list c k = count_list true_keywords k" if "k \<in> set true_keywords" for k
  proof -
    have "k \<notin> set ds"
      using that disj by auto
    moreover have "count_list c k = count_list true_keywords k + count_list ds k"
      using ms by (metis count_mset count_union)
    ultimately show ?thesis
      by simp
  qed
  have once: "count_list c k = 1" if "distinct true_keywords" and "k \<in> set true_keywords" for k
    using that cnt [of k] by (simp add: distinct_count_atmost_1 flip: count_mset)
  have dc: "distinct c" if "distinct true_keywords"
  proof -
    have "distinct (true_keywords @ ds)"
      using that dds disj by auto
    then show ?thesis
      using ms by (metis mset_append mset_eq_imp_distinct_iff)
  qed
  have "add_candidates g true_keywords candidate_pool_size ?pool = Inr (c @ [sentinel], g')"
    using pc by (simp add: add_candidates_eq)
  moreover have "int (length (c @ [sentinel])) = candidate_pool_size + 1"
    using len by simp
  moreover have "last (c @ [sentinel]) = sentinel"
    by simp
  moreover have "\<forall>k \<in> set true_keywords.
      count_list (butlast (c @ [sentinel])) k = count_list true_keywords k"
    using cnt by simp
  moreover have "distinct true_keywords \<longrightarrow>
        (\<forall>k \<in> set true_keywords. count_list (butlast (c @ [sentinel])) k = 1)
      \<and> (\<forall>k \<in> set true_keywords. k \<noteq> sentinel \<longrightarrow> count_list (c @ [sentinel]) k = 1)
      \<and> distinct (butlast (c @ [sentinel]))"
    using once dc by simp
  ultimately show ?thesis
    by blast
qed

theorem add_candidates_full_pool_witness:
  "int (length [''brave'', ''kind'']) \<le> 3
   \<and> 3 - int (length [''brave'', ''kind''])
       \<le> int (length (filter (\<lambda>k. k \<notin> set [''brave'', ''kind''])
             (list_of_dlist (Dlist [''brave'', ''kind'', ''shy'', ''loyal'']))))
   \<and> distinct [''brave'', ''kind'']
   \<and> (\<exists>candidates g'.
         add_candidates zero_rng [''brave'', ''kind''] 3
           (list_of_dlist (Dlist [''brave'', ''kind'', ''shy'', ''loyal''])) = Inr (candidates, g')
       \<and> int (length candidates) = 3 + 1
       \<and> last candidates = sentinel
       \<and> (\<forall>k \<in> set [''brave'', ''kind''].
             count_list (butlast candidates) k = count_list [''brave'', ''kind''] k)
       \<and> (\<forall>k \<in> set [''brave'', ''kind'']. count_list (butlast candidates) k = 1)
       \<and> (\<forall>k \<in> set [''brave'', ''kind'']. k \<noteq> sentinel \<longrightarrow> count_list candidates k = 1)
       \<and> distinct (butlast candidates))"
proof -
  have h1: "int (length [''brave'', ''kind'']) \<le> 3"
    by simp
  have h2: "3 - int (length [''brave'', ''kind''])
       \<le> int (length (filter (\<lambda>k. k \<notin> set [''brave'', ''kind''])
             (list_of_dlist (Dlist [''brave'', ''kind'', ''shy'', ''loyal'']))))"
    by simp
  have h3: "distinct [''brave'', ''kind'']"
    by simp
  show ?thesis
    using h1 h2 h3 add_candidates_full_pool [OF h1 h2, of zero_rng] by blast
qed

text \<open>
  Claim C1 as stated fails when a true keyword is repeated: nothing removes the
  repetition, and the keyword is emitted twice.
\<close>

theorem add_candidates_duplicate_counterexample:
  "int (length [''a'', ''a'']) \<le> 2
   \<and> 2 - int (length [''a'', ''a''])
       \<le> int (length (filter (\<lambda>k. k \<notin> set [''a'', ''a'']) (list_of_dlist (Dlist [''a'']))))
   \<and> map_sum id fst (add_candidates zero_rng [''a'', ''a''] 2 (list_of_dlist (Dlist [''a''])))
       = Inr [''a'', ''a'', ''None of the above'']
   \<and> count_list [''a'', ''a'', ''None of the above''] ''a'' = 2"
  by (simp add: add_candidates_def choose_distractors_def random_sample_def random_shuffle_def
      randbelow_def zero_rng_def sentinel_def)

text \<open>
  Claim C2, as amended. When the true keywords outnumber the candidate pool size, then
  for every tape of the randomness source: \<^verbatim>\<open>prepare_data.py\<close> emits a list of exactly
  \<open>candidate_pool_size\<close> entries, each of them taken from the true keywords (no more
  often than it occurs there); \<^verbatim>\<open>add_samples.py\<close> emits such a list followed by the
  sentinel, so \<open>candidate_pool_size + 1\<close> entries, the last of them the sentinel. Nothing
  is emitted only when the candidate pool size is negative, where the sampling raises.
\<close>

theorem truncated_candidates:
  assumes "candidate_pool_size < int (length true_keywords)"
  shows "(case prepare_candidates g true_keywords candidate_pool_size all_keywords_list of
            Inl e \<Rightarrow> candidate_pool_size < 0
          | Inr (candidates, g') \<Rightarrow>
              int (length candidates) = candidate_pool_size
              \<and> mset candidates \<subseteq># mset true_keywords
              \<and> set candidates \<subseteq> set true_keywords)
       \<and> (case add_candidates g true_keywords candidate_pool_size all_keywords_list of
            Inl e \<Rightarrow> candidate_pool_size < 0
          | Inr (candidates, g') \<Rightarrow>
              int (length candidates) = candidate_pool_size + 1
              \<and> mset (butlast candidates) \<subseteq># mset true_keywords
              \<and> set (butlast candidates) \<subseteq> set true_keywords
              \<and> last candidates = sentinel)"
proof (cases "candidate_pool_size < 0")
  case True
  from prepare_candidates_neg [OF True, of g true_keywords all_keywords_list]
  obtain e where "prepare_candidates g true_keywords candidate_pool_size all_keywords_list = Inl e"
    by blast
  then show ?thesis
    using True by (simp add: add_candidates_eq)
next
  case False
  then have "0 \<le> candidate_pool_size"
    by simp
  from prepare_candidates_trunc [OF this assms, of g all_keywords_list]
  obtain c g' where pc: "prepare_candidates g true_keywords candidate_pool_size all_keywords_list = Inr (c, g')"
    and len: "int (length c) = candidate_pool_size" and sub: "mset c \<subseteq># mset true_keywords"
    by blast
  have "set c \<subseteq> set true_keywords"
    using sub by (metis set_mset_mono set_mset_mset)
  then show ?thesis
    using pc len sub by (simp add: add_candidates_eq)
qed

theorem truncated_candidates_witness:
  "3 < int (length [''shy'', ''brave'', ''loyal'', ''curious''])
   \<and> (case prepare_candidates zero_rng [''shy'', ''brave'', ''loyal'', ''curious''] 3 [''kind''] of
         Inl e \<Rightarrow> (3::int) < 0
       | Inr (candidates, g') \<Rightarrow>
           int (length candidates) = 3
           \<and> mset candidates \<subseteq># mset [''shy'', ''brave'', ''loyal'', ''curious'']
           \<and> set candidates \<subseteq> set [''shy'', ''brave'', ''loyal'', ''curious''])
   \<and> (case add_candidates zero_rng [''shy'', ''brave'', ''loyal'', ''curious''] 3 [''kind''] of
         Inl e \<Rightarrow> (3::int) < 0
       | Inr (candidates, g') \<Rightarrow>
           int (length candidates) = 3 + 1
           \<and> mset (butlast candidates) \<subseteq># mset [''shy'', ''brave'', ''loyal'', ''curious'']
           \<and> set (butlast candidates) \<subseteq> set [''shy'', ''brave'', ''loyal'', ''curious'']
           \<and> last candidates = sentinel)"
proof -
  have h: "3 < int (length [''shy'', ''brave'', ''loyal'', ''curious''])"
    by simp
  show ?thesis
    using h truncated_candidates [OF h, of zero_rng "[''kind'']"] by blast
qed

text \<open>
  Claim C2 as stated fails in the append flow: the sentinel is appended after the
  truncation as well.
\<close>

theorem add_candidates_truncated_counterexample:
  "1 < int (length [''a'', ''b''])
   \<and> map_sum id fst (add_candidates zero_rng [''a'', ''b''] 1 [''a'', ''b''])
       = Inr [''a'', ''None of the above'']
   \<and> int (length [''a'', ''None of the above'']) \<noteq> 1
   \<and> ''None of the above'' \<notin> set [''a'', ''b'']"
  by (simp add: add_candidates_def choose_distractors_def random_sample_def random_shuffle_def
      randbelow_def zero_rng_def sentinel_def)

text \<open>
  Claim C4, as amended. For every tape of the randomness source the list that
  \<^verbatim>\<open>prepare_data.py\<close> emits is a rearrangement of the kept true keywords followed by
  the chosen distractors, where the kept keywords are all the true keywords when they fit
  the candidate pool size and a sample of them otherwise (with no distractors then); no
  chosen distractor is a true keyword, and every one of them comes from the keyword
  pool, so that a kept keyword occurs in the emitted list as often as among the kept
  keywords; when the true keywords are free of duplicates, every kept keyword occurs
  exactly once in the emitted list. \<^verbatim>\<open>add_samples.py\<close> emits the same list followed by
  the sentinel. Nothing is emitted only when the candidate pool size is negative.
\<close>

theorem surviving_keywords_once:
  "(case prepare_candidates g true_keywords candidate_pool_size all_keywords_list of
      Inl e \<Rightarrow> candidate_pool_size < 0
    | Inr (candidates, g') \<Rightarrow>
              (\<exists>kept distractors.
                  mset candidates = mset kept + mset distractors
                \<and> mset kept \<subseteq># mset true_keywords
                \<and> (int (length true_keywords) \<le> candidate_pool_size \<longrightarrow>
                     kept = true_keywords
                     \<and> (\<exists>g1. choose_distractors g true_keywords
                                 (candidate_pool_size - int (length true_keywords))
                                 all_keywords_list = Inr (distractors, g1)))
                \<and> (candidate_pool_size < int (length true_keywords) \<longrightarrow> distractors = [])
                \<and> set distractors \<inter> set true_keywords = {}
                \<and> set distractors \<subseteq> set all_keywords_list
                \<and> (\<forall>k \<in> set kept. count_list candidates k = count_list kept k)
                \<and> (distinct true_keywords \<longrightarrow> (\<forall>k \<in> set kept. count_list candidates k = 1))))
   \<and> add_candidates g true_keywords candidate_pool_size all_keywords_list
       = (case prepare_candidates g true_keywords candidate_pool_size all_keywords_list of
            Inl e \<Rightarrow> Inl e
          | Inr (candidates, g') \<Rightarrow> Inr (candidates @ [sentinel], g'))"
proof -
  let ?n = "int (length true_keywords)"
  have "case prepare_candidates g true_keywords candidate_pool_size all_keywords_list of
            Inl e \<Rightarrow> candidate_pool_size < 0
          | Inr (candidates, g') \<Rightarrow>
              (\<exists>kept distractors.
                  mset candidates = mset kept + mset distractors
                \<and> mset kept \<subseteq># mset true_keywords
                \<and> (int (length true_keywords) \<le> candidate_pool_size \<longrightarrow>
                     kept = true_keywords
                     \<and> (\<exists>g1. choose_distractors g true_keywords
                                 (candidate_pool_size - int (length true_keywords))
                                 all_keywords_list = Inr (distractors, g1)))
                \<and> (candidate_pool_size < int (length true_keywords) \<longrightarrow> distractors = [])
                \<and> set distractors \<inter> set true_keywords = {}
                \<and> set distractors \<subseteq> set all_keywords_list
                \<and> (\<forall>k \<in> set kept. count_list candidates k = count_list kept k)
                \<and> (distinct true_keywords \<longrightarrow> (\<forall>k \<in> set kept. count_list candidates k = 1)))"
    using prepare_candidates_cases [of g true_keywords candidate_pool_size all_keywords_list]
  proof (elim disjE exE conjE)
    fix e
    assume "prepare_candidates g true_keywords candidate_pool_size all_keywords_list = Inl e"
      and "candidate_pool_size < 0"
    then show ?thesis
      by simp
  next
    fix c g'
    assume pc: "prepare_candidates g true_keywords candidate_pool_size all_keywords_list = Inr (c, g')"
      and lt: "candidate_pool_size < ?n" and sub: "mset c \<subseteq># mset true_keywords"
    have once: "\<forall>k \<in> set c. count_list c k = 1" if "distinct true_keywords"
    proof -
      have "distinct c"
        using sub that by (rule mset_subseteq_distinct)
      then show ?thesis
        by (simp add: distinct_count_atmost_1 flip: count_mset)
    qed
    have "mset c = mset c + mset ([]::string list) \<and> mset c \<subseteq># mset true_keywords
        \<and> (?n \<le> candidate_pool_size \<longrightarrow> c = true_keywords
             \<and> (\<exists>g1. choose_distractors g true_keywords (candidate_pool_size - ?n)
                         all_keywords_list = Inr ([], g1)))
        \<and> (candidate_pool_size < ?n \<longrightarrow> ([]::string list) = [])
        \<and> set ([]::string list) \<inter> set true_keywords = {}
        \<and> set ([]::string list) \<subseteq> set all_keywords_list
        \<and> (\<forall>k \<in> set c. count_list c k = count_list c k)
        \<and> (distinct true_keywords \<longrightarrow> (\<forall>k \<in> set c. count_list c k = 1))"
      using sub lt once by simp
    then show ?thesis
      unfolding pc sum.case prod.case by blast
  next
    fix ds g1 c g'
    assume le: "?n \<le> candidate_pool_size"
      and cd: "choose_distractors g true_keywords (candidate_pool_size - ?n) all_keywords_list
                 = Inr (ds, g1)"
      and pc: "prepare_candidates g true_keywords candidate_pool_size all_keywords_list = Inr (c, g')"
      and ms: "mset c = mset true_keywords + mset ds"
    from choose_distractors_disjoint [OF cd]
    have disj: "set ds \<inter> set true_keywords = {}" and sub: "set ds \<subseteq> set all_keywords_list"
      by simp_all
    have cnt: "count_list c k = count_list true_keywords k" if "k \<in> set true_keywords" for k
    proof -
      have "k \<notin> set ds"
        using that disj by auto
      moreover have "count_list c k = count_list true_keywords k + count_list ds k"
        using ms by (metis count_mset count_union)
      ultimately show ?thesis
        by simp
    qed
    have once: "count_list c k = 1" if "distinct true_keywords" and "k \<in> set true_keywords" for k
      using that cnt [of k] by (simp add: distinct_count_atmost_1 flip: count_mset)
    have "mset c = mset true_keywords + mset ds \<and> mset true_keywords \<subseteq># mset true_keywords
        \<and> (?n \<le> candidate_pool_size \<longrightarrow> true_keywords = true_keywords
             \<and> (\<exists>g1. choose_distractors g true_keywords (candidate_pool_size - ?n)
                         all_keywords_list = Inr (ds, g1)))
        \<and> (candidate_pool_size < ?n \<longrightarrow> ds = [])
        \<and> set ds \<inter> set true_keywords = {}
        \<and> set ds \<subseteq> set all_keywords_list
        \<and> (\<forall>k \<in> set true_keywords. count_list c k = count_list true_keywords k)
        \<and> (distinct true_keywords \<longrightarrow> (\<forall>k \<in> set true_keywords. count_list c k = 1))"
      using ms le cd disj sub cnt once by auto
    then show ?thesis
      unfolding pc sum.case prod.case by blast
  qed
  then show ?thesis
    by (simp only: add_candidates_eq simp_thms)
qed

theorem surviving_keywords_once_witness:
  "distinct [''brave'', ''kind'']
   \<and> int (length [''brave'', ''kind'']) \<le> 3
   \<and> (case prepare_candidates zero_rng [''brave'', ''kind''] 3 [''brave'', ''kind'', ''shy''] of
         Inl e \<Rightarrow> (3::int) < 0
       | Inr (candidates, g') \<Rightarrow>
              (\<exists>kept distractors.
                  mset candidates = mset kept + mset distractors
                \<and> mset kept \<subseteq># mset [''brave'', ''kind'']
                \<and> (int (length [''brave'', ''kind'']) \<le> 3 \<longrightarrow>
                     kept = [''brave'', ''kind'']
                     \<and> (\<exists>g1. choose_distractors zero_rng [''brave'', ''kind'']
                                 (3 - int (length [''brave'', ''kind'']))
                                 [''brave'', ''kind'', ''shy''] = Inr (distractors, g1)))
                \<and> (3 < int (length [''brave'', ''kind'']) \<longrightarrow> distractors = [])
                \<and> set distractors \<inter> set [''brave'', ''kind''] = {}
                \<and> set distractors \<subseteq> set [''brave'', ''kind'', ''shy'']
                \<and> (\<forall>k \<in> set kept. count_list candidates k = count_list kept k)
                \<and> (\<forall>k \<in> set kept. count_list candidates k = 1)))
   \<and> add_candidates zero_rng [''brave'', ''kind''] 3 [''brave'', ''kind'', ''shy'']
       = (case prepare_candidates zero_rng [''brave'', ''kind''] 3 [''brave'', ''kind'', ''shy''] of
            Inl e \<Rightarrow> Inl e
          | Inr (candidates, g') \<Rightarrow> Inr (candidates @ [sentinel], g'))"
proof -
  have h: "distinct [''brave'', ''kind'']"
    by simp
  have n: "int (length [''brave'', ''kind'']) \<le> 3"
    by simp
  note fact = surviving_keywords_once [where g = zero_rng and true_keywords = "[''brave'', ''kind'']"
        and candidate_pool_size = 3 and all_keywords_list = "[''brave'', ''kind'', ''shy'']"]
  show ?thesis
  proof (intro conjI)
    show "distinct [''brave'', ''kind'']"
      by (rule h)
    show "int (length [''brave'', ''kind'']) \<le> 3"
      by (rule n)
    show "add_candidates zero_rng [''brave'', ''kind''] 3 [''brave'', ''kind'', ''shy'']
       = (case prepare_candidates zero_rng [''brave'', ''kind''] 3 [''brave'', ''kind'', ''shy''] of
            Inl e \<Rightarrow> Inl e
          | Inr (candidates, g') \<Rightarrow> Inr (candidates @ [sentinel], g'))"
      by (rule fact [THEN conjunct2])
    show "case prepare_candidates zero_rng [''brave'', ''kind''] 3 [''brave'', ''kind'', ''shy''] of
         Inl e \<Rightarrow> (3::int) < 0
       | Inr (candidates, g') \<Rightarrow>
              (\<exists>kept distractors.
                  mset candidates = mset kept + mset distractors
                \<and> mset kept \<subseteq># mset [''brave'', ''kind'']
                \<and> (int (length [''brave'', ''kind'']) \<le> 3 \<longrightarrow>
                     kept = [''brave'', ''kind'']
                     \<and> (\<exists>g1. choose_distractors zero_rng [''brave'', ''kind'']
                                 (3 - int (length [''brave'', ''kind'']))
                                 [''brave'', ''kind'', ''shy''] = Inr (distractors, g1)))
                \<and> (3 < int (length [''brave'', ''kind'']) \<longrightarrow> distractors = [])
                \<and> set distractors \<inter> set [''brave'', ''kind''] = {}
                \<and> set distractors \<subseteq> set [''brave'', ''kind'', ''shy'']
                \<and> (\<forall>k \<in> set kept. count_list candidates k = count_list kept k)
                \<and> (\<forall>k \<in> set kept. count_list candidates k = 1))"
      using fact [THEN conjunct1] h
      by (cases "prepare_candidates zero_rng [''brave'', ''kind''] 3 [''brave'', ''kind'', ''shy'']")
        (simp_all only: sum.case prod.case simp_thms split_paired_all)
  qed
qed

text \<open>
  Claim C4 as stated fails when a true keyword is repeated: both copies are emitted.
\<close>

theorem prepare_candidates_duplicate_counterexample:
  "map_sum id fst (prepare_candidates zero_rng [''x'', ''x'', ''y''] 3 [''x'', ''y'', ''z''])
       = Inr [''x'', ''y'', ''x'']
   \<and> count_list [''x'', ''y'', ''x''] ''x'' = 2"
  by (simp add: prepare_candidates_def choose_distractors_def random_sample_def random_shuffle_def
      randbelow_def zero_rng_def sentinel_def)

subsection \<open>Loading and scoring\<close>

text \<open>
  Claim C8, as amended. For every biography file path that ends in none of \<^verbatim>\<open>.jsonl\<close>,
  \<^verbatim>\<open>.json\<close> and \<^verbatim>\<open>.csv\<close>, loading fails with a \<^verbatim>\<open>ValueError\<close> whose message is the
  fixed text \<^verbatim>\<open>Unknown bio file format\<close>, whatever the path and whatever the files hold.
\<close>

theorem load_bio_file_unsupported:
  assumes "\<not> endswith bio_file_path ''.jsonl''"
    and "\<not> endswith bio_file_path ''.json''"
    and "\<not> endswith bio_file_path ''.csv''"
  shows "load_bio_file load_jsonl json_load read_csv_records bio_file_path
           = Inl (ValueError ''Unknown bio file format'')"
  using assms by (simp add: load_bio_file_def)

theorem load_bio_file_unsupported_witness:
  "\<not> endswith ''notes.xml'' ''.jsonl''
   \<and> \<not> endswith ''notes.xml'' ''.json''
   \<and> \<not> endswith ''notes.xml'' ''.csv''
   \<and> load_bio_file no_such_file no_such_file no_such_file ''notes.xml''
       = Inl (ValueError ''Unknown bio file format'')"
proof -
  have h1: "\<not> endswith ''notes.xml'' ''.jsonl''"
    by (simp add: endswith_def)
  have h2: "\<not> endswith ''notes.xml'' ''.json''"
    by (simp add: endswith_def)
  have h3: "\<not> endswith ''notes.xml'' ''.csv''"
    by (simp add: endswith_def)
  show ?thesis
    using h1 h2 h3 load_bio_file_unsupported [OF h1 h2 h3, of no_such_file no_such_file no_such_file]
    by blast
qed

text \<open>
  Claim C8 as stated fails: the message of the error does not name the rejected path.
\<close>

theorem load_bio_file_message_counterexample:
  "load_bio_file no_such_file no_such_file no_such_file ''bios.txt''
     = Inl (ValueError ''Unknown bio file format'')
   \<and> \<not> is_substring ''bios.txt'' ''Unknown bio file format''"
  by (simp add: load_bio_file_def endswith_def)

lemma load_bio_file_supported:
  "load_bio_file load_jsonl json_load read_csv_records ''bios.jsonl'' = load_jsonl ''bios.jsonl''"
  "load_bio_file load_jsonl json_load read_csv_records ''bios.json'' = json_load ''bios.json''"
  "load_bio_file load_jsonl json_load read_csv_records ''bios.csv'' = read_csv_records ''bios.csv''"
  by (simp_all add: load_bio_file_def endswith_def)

lemma fold_insert_unless:
  "fold (\<lambda>keyword keywords. if keyword \<noteq> s then insert keyword keywords else keywords) ks acc
     = acc \<union> (set ks - {s})"
  by (induction ks arbitrary: acc) auto

text \<open>
  Claim C9. The annotated keywords of an instance are exactly the keys of
  \<^verbatim>\<open>label_annotations.valid_keywords\<close> other than the sentinel string (none when either
  dictionary is absent).
\<close>

theorem extract_annotated_keywords_keys:
  "extract_annotated_keywords instance =
     (case label_annotations instance of
        None \<Rightarrow> {}
      | Some annotations \<Rightarrow>
          (case annotations ''valid_keywords'' of
             None \<Rightarrow> {}
           | Some valid_keywords \<Rightarrow> set (map fst valid_keywords) - {sentinel}))"
  by (simp add: extract_annotated_keywords_def fold_insert_unless sentinel_def
      split: option.splits)

theorem extract_annotated_keywords_keys_witness:
  "extract_annotated_keywords
     \<lparr>instance_id = Some ''i1'', ann_id = None, user_id = Some ''u'',
      label_annotations = Some [''valid_keywords'' \<mapsto>
         [(''brave'', True), (''None of the above'', True), (''kind'', True)]]\<rparr>
   = {''brave'', ''kind''}"
  by (simp add: extract_annotated_keywords_keys sentinel_def insert_Diff_if)

text \<open>
  Claim C5. For all sets of strings \<open>predicted\<close> and \<open>actual\<close> (finite ones in
  particular), \<^verbatim>\<open>compute_metrics\<close> returns 1 for all four scores when both sets are
  empty, and otherwise the precision, recall, F1 and Jaccard values of the claim; its
  keys are always the four score names.
\<close>

theorem compute_metrics_values:
  "(predicted = {} \<and> actual = {} \<longrightarrow>
      compute_metrics predicted actual
        = [(''precision'', 1), (''recall'', 1), (''f1'', 1), (''jaccard'', 1)])
   \<and> (\<not> (predicted = {} \<and> actual = {}) \<longrightarrow>
        map_of (compute_metrics predicted actual) ''precision''
          = Some (if predicted \<noteq> {}
                  then real (card (predicted \<inter> actual)) / real (card predicted) else 0)
      \<and> map_of (compute_metrics predicted actual) ''recall''
          = Some (if actual \<noteq> {}
                  then real (card (predicted \<inter> actual)) / real (card actual) else 0)
      \<and> (\<forall>precision recall.
            map_of (compute_metrics predicted actual) ''precision'' = Some precision
            \<and> map_of (compute_metrics predicted actual) ''recall'' = Some recall
            \<longrightarrow> map_of (compute_metrics predicted actual) ''f1''
                  = Some (if precision + recall > 0
                          then 2 * precision * recall / (precision + recall) else 0))
      \<and> map_of (compute_metrics predicted actual) ''jaccard''
          = Some (if predicted \<union> actual \<noteq> {}
                  then real (card (predicted \<inter> actual)) / real (card (predicted \<union> actual))
                  else 0))
   \<and> map fst (compute_metrics predicted actual) = [''precision'', ''recall'', ''f1'', ''jaccard'']"
  by (simp add: compute_metrics_def Let_def)

theorem compute_metrics_values_witness:
  "\<not> ({''brave'', ''kind''} = ({}::string set) \<and> {''kind'', ''shy'', ''loyal''} = ({}::string set))
   \<and> map_of (compute_metrics {''brave'', ''kind''} {''kind'', ''shy'', ''loyal''}) ''precision''
       = Some (1 / 2)
   \<and> map_of (compute_metrics {''brave'', ''kind''} {''kind'', ''shy'', ''loyal''}) ''recall''
       = Some (1 / 3)
   \<and> map_of (compute_metrics {''brave'', ''kind''} {''kind'', ''shy'', ''loyal''}) ''f1''
       = Some (2 / 5)
   \<and> map_of (compute_metrics {''brave'', ''kind''} {''kind'', ''shy'', ''loyal''}) ''jaccard''
       = Some (1 / 4)"
proof -
  let ?m = "compute_metrics {''brave'', ''kind''} {''kind'', ''shy'', ''loyal''}"
  note facts = compute_metrics_values [of "{''brave'', ''kind''}" "{''kind'', ''shy'', ''loyal''}"]
  have ne: "\<not> ({''brave'', ''kind''} = ({}::string set) \<and> {''kind'', ''shy'', ''loyal''} = ({}::string set))"
    by simp
  have p: "map_of ?m ''precision'' = Some (1 / 2)"
    using facts by (simp add: card_insert_if)
  have r: "map_of ?m ''recall'' = Some (1 / 3)"
    using facts by (simp add: card_insert_if)
  have j: "map_of ?m ''jaccard'' = Some (1 / 4)"
    using facts by (simp add: card_insert_if)
  have "map_of ?m ''f1''
      = Some (if (1 / 2 :: real) + 1 / 3 > 0 then 2 * (1 / 2) * (1 / 3) / (1 / 2 + 1 / 3) else 0)"
    using facts ne p r by blast
  then have f: "map_of ?m ''f1'' = Some (2 / 5)"
    by simp
  show ?thesis
    using ne p r f j by blast
qed

text \<open>
  Claim C10. Swapping the arguments of \<^verbatim>\<open>compute_metrics\<close> swaps precision and recall
  and keeps F1 and Jaccard.
\<close>

theorem compute_metrics_swap:
  "map_of (compute_metrics a b) ''precision'' = map_of (compute_metrics b a) ''recall''
   \<and> map_of (compute_metrics a b) ''f1'' = map_of (compute_metrics b a) ''f1''
   \<and> map_of (compute_metrics a b) ''jaccard'' = map_of (compute_metrics b a) ''jaccard''"
  by (simp add: compute_metrics_def Let_def Int_commute Un_commute add.commute mult.commute
      mult.left_commute)

subsection \<open>The append flow\<close>

lemma add_join_step_items:
  "\<exists>items pool'. add_join_step used_ids model_lookup bio_item (available_data, pool)
        = (available_data @ items, pool')
     \<and> length items = (if is_available used_ids model_lookup bio_item then 1 else 0)
     \<and> (\<forall>item \<in> set items. item_id item \<notin> used_ids)"
  by (auto simp: add_join_step_def is_available_def Let_def split: option.splits)

lemma add_join_fold_items:
  "\<exists>items pool'. fold (add_join_step used_ids model_lookup) bio_data (available_data, pool)
        = (available_data @ items, pool')
     \<and> length items = length (filter (is_available used_ids model_lookup) bio_data)
     \<and> (\<forall>item \<in> set items. item_id item \<notin> used_ids)"
proof (induction bio_data arbitrary: available_data pool)
  case Nil
  then show ?case by simp
next
  case (Cons bio_item bio_data)
  from add_join_step_items [of used_ids model_lookup bio_item available_data pool]
  obtain items1 pool1 where step: "add_join_step used_ids model_lookup bio_item (available_data, pool)
        = (available_data @ items1, pool1)"
    and len1: "length items1 = (if is_available used_ids model_lookup bio_item then 1 else 0)"
    and ids1: "\<forall>item \<in> set items1. item_id item \<notin> used_ids"
    by blast
  from Cons.IH [of "available_data @ items1" pool1]
  obtain items2 pool2 where rest: "fold (add_join_step used_ids model_lookup) bio_data
        (available_data @ items1, pool1) = ((available_data @ items1) @ items2, pool2)"
    and len2: "length items2 = length (filter (is_available used_ids model_lookup) bio_data)"
    and ids2: "\<forall>item \<in> set items2. item_id item \<notin> used_ids"
    by blast
  have "fold (add_join_step used_ids model_lookup) (bio_item # bio_data) (available_data, pool)
      = (available_data @ (items1 @ items2), pool2)"
    using step rest by simp
  moreover have "length (items1 @ items2)
      = length (filter (is_available used_ids model_lookup) (bio_item # bio_data))"
    using len1 len2 by simp
  moreover have "\<forall>item \<in> set (items1 @ items2). item_id item \<notin> used_ids"
    using ids1 ids2 by auto
  ultimately show ?case
    by blast
qed

lemma add_join_available:
  "length (fst (add_join existing_data model_data bio_data))
     = length (filter (is_available (used_ids_of existing_data) (model_lookup_of model_data)) bio_data)
   \<and> (\<forall>item \<in> set (fst (add_join existing_data model_data bio_data)).
         item_id item \<notin> used_ids_of existing_data)"
  using add_join_fold_items [of "used_ids_of existing_data" "model_lookup_of model_data" bio_data
      "[]" Dlist.empty]
  by (auto simp: add_join_def)

lemma add_select_subset:
  assumes "add_select g available_data num_samples = Inr (sampled, g')"
  shows "mset sampled \<subseteq># mset available_data"
proof (cases "int (length available_data) < num_samples")
  case True
  then show ?thesis
    using assms by (simp add: add_select_def)
next
  case False
  then have rs: "random_sample g available_data num_samples = Inr (sampled, g')"
    using assms by (simp add: add_select_def)
  then have "0 \<le> num_samples"
    by (auto simp: random_sample_def Let_def split: if_splits)
  from random_sample_Inr [OF this, of available_data g] False rs
  show ?thesis
    by auto
qed

text \<open>
  Claim C7. In the append flow, for every tape of the randomness source, no selected
  record has an identifier of the exclusion set built from the existing file; and when
  the requested sample count \<open>k\<close> (a count: not negative) is at most the number of
  available characters, the selection succeeds and consists of exactly \<open>k\<close> of the
  available records.
\<close>

theorem add_select_excludes_used:
  "(\<forall>sampled g'.
       add_select g (fst (add_join existing_data model_data bio_data)) num_samples
         = Inr (sampled, g')
       \<longrightarrow> (\<forall>item \<in> set sampled. item_id item \<notin> used_ids_of existing_data))
   \<and> (0 \<le> num_samples
        \<and> num_samples \<le> int (length (filter
              (is_available (used_ids_of existing_data) (model_lookup_of model_data)) bio_data))
      \<longrightarrow> (\<exists>sampled g'.
             add_select g (fst (add_join existing_data model_data bio_data)) num_samples
               = Inr (sampled, g')
           \<and> int (length sampled) = num_samples
           \<and> mset sampled \<subseteq># mset (fst (add_join existing_data model_data bio_data))))"
proof (intro conjI allI impI)
  fix sampled g'
  assume "add_select g (fst (add_join existing_data model_data bio_data)) num_samples
            = Inr (sampled, g')"
  then have "mset sampled \<subseteq># mset (fst (add_join existing_data model_data bio_data))"
    by (rule add_select_subset)
  then have "set sampled \<subseteq> set (fst (add_join existing_data model_data bio_data))"
    by (metis set_mset_mono set_mset_mset)
  then show "\<forall>item \<in> set sampled. item_id item \<notin> used_ids_of existing_data"
    using add_join_available [of existing_data model_data bio_data] by blast
next
  let ?available = "fst (add_join existing_data model_data bio_data)"
  assume "0 \<le> num_samples
        \<and> num_samples \<le> int (length (filter
              (is_available (used_ids_of existing_data) (model_lookup_of model_data)) bio_data))"
  then have k0: "0 \<le> num_samples" and kn: "num_samples \<le> int (length ?available)"
    using add_join_available [of existing_data model_data bio_data] by simp_all
  from random_sample_Inr [OF k0 kn, of g]
  obtain sampled g' where "random_sample g ?available num_samples = Inr (sampled, g')"
    and "int (length sampled) = num_samples" and "mset sampled \<subseteq># mset ?available"
    by blast
  then show "\<exists>sampled g'. add_select g ?available num_samples = Inr (sampled, g')
      \<and> int (length sampled) = num_samples \<and> mset sampled \<subseteq># mset ?available"
    using kn by (auto simp: add_select_def)
qed

theorem add_select_excludes_used_witness:
  "(0::int) \<le> 3
   \<and> 3 \<le> int (length (filter
          (is_available (used_ids_of append_example_existing)
             (model_lookup_of append_example_models)) append_example_bios))
   \<and> (\<exists>sampled g'.
         add_select zero_rng
           (fst (add_join append_example_existing append_example_models append_example_bios)) 3
           = Inr (sampled, g')
       \<and> int (length sampled) = 3
       \<and> mset sampled
           \<subseteq># mset (fst (add_join append_example_existing append_example_models
                          append_example_bios))
       \<and> (\<forall>item \<in> set sampled. item_id item \<notin> used_ids_of append_example_existing))"
proof -
  have h: "(0::int) \<le> 3
     \<and> 3 \<le> int (length (filter
          (is_available (used_ids_of append_example_existing)
             (model_lookup_of append_example_models)) append_example_bios))"
    by (simp add: is_available_def used_ids_of_def model_lookup_of_def
        append_example_existing_def append_example_models_def append_example_bios_def
        py_or_def english_keywords_def)
  show ?thesis
    using h add_select_excludes_used [of zero_rng append_example_existing append_example_models
        append_example_bios 3]
    by blast
qed

subsection \<open>Aggregation\<close>

lemma dd_get_append:
  "dd_get (dd_append d key v) k = (if k = key then dd_get d k @ [v] else dd_get d k)"
  by (induction d key v rule: dd_append.induct) (auto simp: dd_get_def)

lemma dd_append_keys: "fst ` set (dd_append d key v) = insert key (fst ` set d)"
  by (induction d key v rule: dd_append.induct) auto

lemma dd_append_distinct: "distinct (map fst d) \<Longrightarrow> distinct (map fst (dd_append d key v))"
proof (induction d key v rule: dd_append.induct)
  case (1 key v)
  then show ?case by simp
next
  case (2 k vs d key v)
  then show ?case
    using dd_append_keys [of d key v] by (auto simp flip: set_map)
qed

lemma dd_append_nonempty:
  "\<forall>(k, vs) \<in> set d. vs \<noteq> [] \<Longrightarrow> \<forall>(k, vs) \<in> set (dd_append d key v). vs \<noteq> []"
  by (induction d key v rule: dd_append.induct) auto

lemma dd_ok_append: "dd_ok d \<Longrightarrow> dd_ok (dd_append d key v)"
  using dd_append_distinct [of d key v] dd_append_nonempty [of d key v]
  by (simp add: dd_ok_def)

lemma collect_one:
  "dd_ok agg \<Longrightarrow>
   dd_ok (fold (\<lambda>(key, v) aggregate. dd_append aggregate key v) metrics agg)
   \<and> fst ` set (fold (\<lambda>(key, v) aggregate. dd_append aggregate key v) metrics agg)
       = fst ` set agg \<union> fst ` set metrics
   \<and> (\<forall>k. dd_get (fold (\<lambda>(key, v) aggregate. dd_append aggregate key v) metrics agg) k
          = dd_get agg k @ map snd (filter (\<lambda>(k', v). k' = k) metrics))"
proof (induction metrics arbitrary: agg)
  case Nil
  then show ?case by simp
next
  case (Cons entry metrics)
  obtain key v where entry: "entry = (key, v)"
    by (cases entry)
  have ok: "dd_ok (dd_append agg key v)"
    using Cons.prems by (rule dd_ok_append)
  show ?case
    using Cons.IH [OF ok] entry
    by (auto simp: dd_get_append dd_append_keys)
qed

lemma collect_all:
  "dd_ok agg \<Longrightarrow>
   dd_ok (fold (\<lambda>metrics aggregate.
                  fold (\<lambda>(key, v) aggregate. dd_append aggregate key v) metrics aggregate)
            all_metrics agg)
   \<and> fst ` set (fold (\<lambda>metrics aggregate.
                  fold (\<lambda>(key, v) aggregate. dd_append aggregate key v) metrics aggregate)
            all_metrics agg)
       = fst ` set agg \<union> keys_of all_metrics
   \<and> (\<forall>k. dd_get (fold (\<lambda>metrics aggregate.
                  fold (\<lambda>(key, v) aggregate. dd_append aggregate key v) metrics aggregate)
            all_metrics agg) k
          = dd_get agg k @ values_of k all_metrics)"
proof (induction all_metrics arbitrary: agg)
  case Nil
  then show ?case by (simp add: keys_of_def values_of_def)
next
  case (Cons metrics all_metrics)
  let ?agg1 = "fold (\<lambda>(key, v) aggregate. dd_append aggregate key v) metrics agg"
  from collect_one [OF Cons.prems, of metrics]
  have ok1: "dd_ok ?agg1"
    and keys1: "fst ` set ?agg1 = fst ` set agg \<union> fst ` set metrics"
    and get1: "\<And>k. dd_get ?agg1 k = dd_get agg k @ map snd (filter (\<lambda>(k', v). k' = k) metrics)"
    by blast+
  from Cons.IH [OF ok1]
  show ?case
    using keys1 get1 by (auto simp: keys_of_def values_of_def)
qed

lemma collect_values_props:
  "dd_ok (collect_values all_metrics)
   \<and> fst ` set (collect_values all_metrics) = keys_of all_metrics
   \<and> (\<forall>k. dd_get (collect_values all_metrics) k = values_of k all_metrics)"
  using collect_all [of "[]" all_metrics]
  by (simp add: collect_values_def dd_ok_def dd_get_def)

lemma mean_key_neq_std_key: "a @ ''_mean'' \<noteq> b @ ''_std''"
proof
  assume "a @ ''_mean'' = b @ ''_std''"
  then have "last (a @ ''_mean'') = last (b @ ''_std'')"
    by (rule arg_cong)
  then show False
    by simp
qed

lemma summarise_lookup:
  assumes "vals \<noteq> []"
  shows "summarise (k, vals) r (key @ ''_mean'')
           = (if key = k then Some (arithmetic_mean vals) else r (key @ ''_mean''))"
    and "summarise (k, vals) r (key @ ''_std'')
           = (if key = k then Some (population_std vals) else r (key @ ''_std''))"
  using assms mean_key_neq_std_key [of key k] mean_key_neq_std_key [of k key]
  by (auto simp: summarise_def Let_def arithmetic_mean_def population_std_def)

lemma summarise_dom:
  assumes "vals \<noteq> []"
  shows "dom (summarise (k, vals) r) = dom r \<union> {k @ ''_mean'', k @ ''_std''}"
  using assms by (auto simp: summarise_def Let_def)

lemma fold_summarise_lookup:
  assumes "dd_ok agg"
  shows "fold summarise agg r (key @ ''_mean'')
           = (if key \<in> fst ` set agg then Some (arithmetic_mean (dd_get agg key))
              else r (key @ ''_mean''))
       \<and> fold summarise agg r (key @ ''_std'')
           = (if key \<in> fst ` set agg then Some (population_std (dd_get agg key))
              else r (key @ ''_std''))"
  using assms
proof (induction agg arbitrary: r)
  case Nil
  then show ?case by simp
next
  case (Cons entry agg)
  obtain k vals where entry: "entry = (k, vals)"
    by (cases entry)
  have ok: "dd_ok agg" and fresh: "k \<notin> fst ` set agg" and ne: "vals \<noteq> []"
    using Cons.prems entry by (auto simp: dd_ok_def)
  note IH = Cons.IH [OF ok, of "summarise (k, vals) r"]
  show ?case
  proof (cases "key \<in> fst ` set agg")
    case True
    then have "key \<noteq> k"
      using fresh by auto
    then have "dd_get (entry # agg) key = dd_get agg key"
      using entry by (simp add: dd_get_def)
    then show ?thesis
      using IH True entry by simp
  next
    case False
    show ?thesis
    proof (cases "key = k")
      case True
      then have "dd_get (entry # agg) key = vals"
        using entry by (simp add: dd_get_def)
      then show ?thesis
        using IH False True entry summarise_lookup [OF ne, of k r k] by simp
    next
      case neq: False
      then show ?thesis
        using IH False entry summarise_lookup [OF ne, of k r key] by simp
    qed
  qed
qed

lemma fold_summarise_dom:
  assumes "\<forall>(k, vs) \<in> set agg. vs \<noteq> []"
  shows "dom (fold summarise agg r)
           = dom r \<union> (\<lambda>k. k @ ''_mean'') ` fst ` set agg \<union> (\<lambda>k. k @ ''_std'') ` fst ` set agg"
  using assms
proof (induction agg arbitrary: r)
  case Nil
  then show ?case by simp
next
  case (Cons entry agg)
  obtain k vals where entry: "entry = (k, vals)"
    by (cases entry)
  have ne: "vals \<noteq> []" and rest: "\<forall>(k, vs) \<in> set agg. vs \<noteq> []"
    using Cons.prems entry by auto
  show ?case
    using Cons.IH [OF rest, of "summarise (k, vals) r"] summarise_dom [OF ne, of k r] entry
    by auto
qed

lemma values_of_nonempty_key: "values_of key all_metrics \<noteq> [] \<Longrightarrow> key \<in> keys_of all_metrics"
  by (force simp: values_of_def keys_of_def filter_empty_conv)

lemma values_of_single:
  assumes "distinct (map fst metrics)" and "(key, v) \<in> set metrics"
  shows "values_of key [metrics] = [v]"
proof -
  have "map snd (filter (\<lambda>(k, v). k = key) metrics) = [v]"
    using assms
  proof (induction metrics)
    case Nil
    then show ?case by simp
  next
    case (Cons entry metrics)
    show ?case
    proof (cases "entry = (key, v)")
      case True
      then have "key \<notin> fst ` set metrics"
        using Cons.prems(1) by auto
      then have "filter (\<lambda>(k, v). k = key) metrics = []"
        by (force simp: filter_empty_conv)
      then show ?thesis
        using True by simp
    next
      case False
      then have mem: "(key, v) \<in> set metrics"
        using Cons.prems(2) by simp
      then have "fst entry \<noteq> key"
        using Cons.prems(1) by (cases entry) (auto simp: image_iff)
      then show ?thesis
        using Cons.IH mem Cons.prems(1) by (cases entry) simp
    qed
  qed
  then show ?thesis
    by (simp add: values_of_def)
qed

text \<open>
  Claim C6. The aggregate of an empty collection has no keys. For every collection and
  every metric key with at least one value present, the aggregate holds under
  \<open>key_mean\<close> the arithmetic mean and under \<open>key_std\<close> the population standard
  deviation of the values present for that key, and it has no other keys than these.
  For a collection of a single metrics dictionary, the mean of every key is the value of
  that key and its standard deviation is 0.
\<close>

theorem compute_aggregate_metrics_summary:
  "compute_aggregate_metrics [] = Map.empty
   \<and> (\<forall>key. values_of key all_metrics \<noteq> [] \<longrightarrow>
         compute_aggregate_metrics all_metrics (key @ ''_mean'')
           = Some (arithmetic_mean (values_of key all_metrics))
       \<and> compute_aggregate_metrics all_metrics (key @ ''_std'')
           = Some (population_std (values_of key all_metrics)))
   \<and> dom (compute_aggregate_metrics all_metrics)
       = (\<lambda>key. key @ ''_mean'') ` keys_of all_metrics
         \<union> (\<lambda>key. key @ ''_std'') ` keys_of all_metrics
   \<and> (distinct (map fst metrics) \<longrightarrow>
        (\<forall>(key, v) \<in> set metrics.
            compute_aggregate_metrics [metrics] (key @ ''_mean'') = Some v
          \<and> compute_aggregate_metrics [metrics] (key @ ''_std'') = Some 0))"
proof -
  have general: "compute_aggregate_metrics ms (key @ ''_mean'')
           = Some (arithmetic_mean (values_of key ms))
       \<and> compute_aggregate_metrics ms (key @ ''_std'')
           = Some (population_std (values_of key ms))"
    if ne: "values_of key ms \<noteq> []" for key ms
  proof -
    have "ms \<noteq> []"
      using ne by (auto simp: values_of_def)
    moreover have "key \<in> fst ` set (collect_values ms)"
      using values_of_nonempty_key [OF ne] collect_values_props [of ms] by simp
    ultimately show ?thesis
      using fold_summarise_lookup [of "collect_values ms" Map.empty key]
        collect_values_props [of ms]
      by (simp add: compute_aggregate_metrics_def)
  qed
  have domain: "dom (compute_aggregate_metrics all_metrics)
       = (\<lambda>key. key @ ''_mean'') ` keys_of all_metrics
         \<union> (\<lambda>key. key @ ''_std'') ` keys_of all_metrics"
  proof (cases "all_metrics = []")
    case True
    then show ?thesis
      by (simp add: compute_aggregate_metrics_def keys_of_def)
  next
    case False
    have "\<forall>(k, vs) \<in> set (collect_values all_metrics). vs \<noteq> []"
      using collect_values_props [of all_metrics] by (simp add: dd_ok_def)
    from fold_summarise_dom [OF this, of Map.empty] False
    show ?thesis
      using collect_values_props [of all_metrics]
      by (simp add: compute_aggregate_metrics_def)
  qed
  have single: "compute_aggregate_metrics [metrics] (key @ ''_mean'') = Some v
          \<and> compute_aggregate_metrics [metrics] (key @ ''_std'') = Some 0"
    if "distinct (map fst metrics)" and "(key, v) \<in> set metrics" for key v
  proof -
    have vs: "values_of key [metrics] = [v]"
      using that by (rule values_of_single)
    then have "values_of key [metrics] \<noteq> []"
      by simp
    from general [OF this] show ?thesis
      by (simp add: vs arithmetic_mean_def population_std_def)
  qed
  show ?thesis
    using general [of _ all_metrics] domain single
    by (auto simp: compute_aggregate_metrics_def)
qed

theorem compute_aggregate_metrics_summary_witness:
  "values_of ''f1'' [[(''f1'', 0)], [(''f1'', 1)]] \<noteq> []
   \<and> compute_aggregate_metrics [[(''f1'', 0)], [(''f1'', 1)]] ''f1_mean'' = Some (1 / 2)
   \<and> compute_aggregate_metrics [[(''f1'', 0)], [(''f1'', 1)]] ''f1_std'' = Some (1 / 2)
   \<and> distinct (map fst [(''f1'', 3 / 4 :: real), (''jaccard'', 3 / 5)])
   \<and> (''jaccard'', 3 / 5) \<in> set [(''f1'', 3 / 4 :: real), (''jaccard'', 3 / 5)]
   \<and> compute_aggregate_metrics [[(''f1'', 3 / 4), (''jaccard'', 3 / 5)]] ''jaccard_mean''
       = Some (3 / 5)
   \<and> compute_aggregate_metrics [[(''f1'', 3 / 4), (''jaccard'', 3 / 5)]] ''jaccard_std'' = Some 0"
proof -
  note facts = compute_aggregate_metrics_summary
    [of "[[(''f1'', 0)], [(''f1'', 1)]]" "[(''f1'', 3 / 4), (''jaccard'', 3 / 5)]"]
  have vals: "values_of ''f1'' [[(''f1'', 0)], [(''f1'', 1)]] = [0, 1]"
    by (simp add: values_of_def)
  then have ne: "values_of ''f1'' [[(''f1'', 0)], [(''f1'', 1)]] \<noteq> []"
    by simp
  note general = facts [THEN conjunct2, THEN conjunct1, rule_format, OF ne]
  have m: "arithmetic_mean [0, 1] = 1 / 2"
    by (simp add: arithmetic_mean_def)
  have s: "population_std [0, 1] = 1 / 2"
    by (simp add: population_std_def arithmetic_mean_def power2_eq_square real_sqrt_divide)
  have pair: "compute_aggregate_metrics [[(''f1'', 0)], [(''f1'', 1)]] ''f1_mean'' = Some (1 / 2)
      \<and> compute_aggregate_metrics [[(''f1'', 0)], [(''f1'', 1)]] ''f1_std'' = Some (1 / 2)"
    using general by (simp add: vals m s)
  have d: "distinct (map fst [(''f1'', 3 / 4 :: real), (''jaccard'', 3 / 5)])"
    by simp
  have mem: "(''jaccard'', 3 / 5) \<in> set [(''f1'', 3 / 4 :: real), (''jaccard'', 3 / 5)]"
    by simp
  note single = facts [THEN conjunct2, THEN conjunct2, THEN conjunct2, THEN mp, OF d,
      THEN bspec, OF mem]
  have one: "compute_aggregate_metrics [[(''f1'', 3 / 4), (''jaccard'', 3 / 5)]] ''jaccard_mean''
          = Some (3 / 5)
      \<and> compute_aggregate_metrics [[(''f1'', 3 / 4), (''jaccard'', 3 / 5)]] ''jaccard_std''
          = Some 0"
    using single by simp
  show ?thesis
    using ne pair d mem one by (intro conjI) (simp_all only: simp_thms)
qed

subsection \<open>The scoring run\<close>

lemma dd_append_concat:
  "mset (concat (map snd (dd_append d key v))) = add_mset v (mset (concat (map snd d)))"
  by (induction d key v rule: dd_append.induct) auto

lemma group_by_user_fold:
  "dd_ok groups \<Longrightarrow>
   dd_ok (fold (\<lambda>annotated_instance user_to_annotations.
             case user_id annotated_instance of
               None \<Rightarrow> user_to_annotations
             | Some uid \<Rightarrow>
                 if uid \<noteq> [] then dd_append user_to_annotations uid annotated_instance
                 else user_to_annotations) annotated_data groups)
   \<and> mset (concat (map snd (fold (\<lambda>annotated_instance user_to_annotations.
             case user_id annotated_instance of
               None \<Rightarrow> user_to_annotations
             | Some uid \<Rightarrow>
                 if uid \<noteq> [] then dd_append user_to_annotations uid annotated_instance
                 else user_to_annotations) annotated_data groups)))
       = mset (concat (map snd groups)) + mset (filter has_user annotated_data)"
proof (induction annotated_data arbitrary: groups)
  case Nil
  then show ?case by simp
next
  case (Cons a annotated_data)
  show ?case
  proof (cases "has_user a")
    case True
    then obtain uid where uid: "user_id a = Some uid" "uid \<noteq> []"
      by (auto simp: has_user_def split: option.splits)
    have "dd_ok (dd_append groups uid a)"
      using Cons.prems by (rule dd_ok_append)
    from Cons.IH [OF this] show ?thesis
      using uid True by (simp add: dd_append_concat)
  next
    case False
    then have "(case user_id a of None \<Rightarrow> groups
        | Some uid \<Rightarrow> if uid \<noteq> [] then dd_append groups uid a else groups) = groups"
      by (auto simp: has_user_def split: option.splits)
    then show ?thesis
      using Cons.IH [OF Cons.prems] False by simp
  qed
qed

lemma group_by_user_props:
  "dd_ok (group_by_user annotated_data)
   \<and> mset (concat (map snd (group_by_user annotated_data))) = mset (filter has_user annotated_data)"
  using group_by_user_fold [of "[]" annotated_data]
  by (simp add: group_by_user_def dd_ok_def)

lemma mset_concat_map:
  "mset (concat (map f xs)) = (\<Sum>x \<in># mset xs. mset (f x))"
  by (induction xs) simp_all

lemma mset_concat_map_cong:
  "mset xs = mset ys \<Longrightarrow> mset (concat (map f xs)) = mset (concat (map f ys))"
  by (simp add: mset_concat_map)

lemma dd_get_keys:
  "distinct (map fst d) \<Longrightarrow> map (dd_get d) (map fst d) = map snd d"
proof (induction d)
  case Nil
  then show ?case by simp
next
  case (Cons entry d)
  obtain k vs where entry: "entry = (k, vs)"
    by (cases entry)
  have fresh: "k \<notin> fst ` set d" and rest: "distinct (map fst d)"
    using Cons.prems entry by auto
  have "map (dd_get (entry # d)) (map fst d) = map (dd_get d) (map fst d)"
  proof (rule map_cong [OF refl])
    fix x
    assume "x \<in> set (map fst d)"
    then have "x \<noteq> k"
      using fresh by auto
    then show "dd_get (entry # d) x = dd_get d x"
      using entry by (simp add: dd_get_def)
  qed
  then show ?case
    using Cons.IH [OF rest] entry by (simp add: dd_get_def)
qed

lemma map_filter_concat:
  "List.map_filter f (concat xss) = concat (map (List.map_filter f) xss)"
  by (induction xss) (simp_all add: map_filter_def)

lemma map_filter_mset_cong:
  "mset xs = mset ys \<Longrightarrow> mset (List.map_filter f xs) = mset (List.map_filter f ys)"
  by (simp add: map_filter_def)

lemma per_instance_metrics:
  "map res_metrics (per_instance (compute_user_metrics user_annotations original_lookup))
     = map res_metrics (List.map_filter (score_instance original_lookup) user_annotations)"
  by (simp add: compute_user_metrics_def Let_def)

lemma all_instance_metrics_perm:
  "mset (all_instance_metrics_of (user_results_of original_data annotated_data))
     = mset (scored_metrics (original_lookup_of original_data) annotated_data)"
proof -
  let ?lookup = "original_lookup_of original_data"
  let ?groups = "group_by_user annotated_data"
  let ?score = "\<lambda>annotations. List.map_filter (score_instance ?lookup) annotations"
  have ok: "distinct (map fst ?groups)"
    and perm: "mset (concat (map snd ?groups)) = mset (filter has_user annotated_data)"
    using group_by_user_props [of annotated_data] by (simp_all add: dd_ok_def)
  have "all_instance_metrics_of (user_results_of original_data annotated_data)
      = concat (map (\<lambda>uid. map res_metrics (?score (dd_get ?groups uid)))
                 (sort (map fst ?groups)))"
    by (simp add: all_instance_metrics_of_def user_results_of_def Let_def comp_def
        per_instance_metrics)
  also have "mset \<dots> = mset (concat (map (\<lambda>uid. map res_metrics (?score (dd_get ?groups uid)))
                 (map fst ?groups)))"
    by (rule mset_concat_map_cong) simp
  also have "concat (map (\<lambda>uid. map res_metrics (?score (dd_get ?groups uid))) (map fst ?groups))
      = concat (map (\<lambda>annotations. map res_metrics (?score annotations))
          (map (dd_get ?groups) (map fst ?groups)))"
    by (simp add: comp_def)
  also have "\<dots> = concat (map (\<lambda>annotations. map res_metrics (?score annotations))
          (map snd ?groups))"
    by (simp only: dd_get_keys [OF ok])
  also have "\<dots> = map res_metrics (?score (concat (map snd ?groups)))"
    by (simp add: map_filter_concat map_concat comp_def)
  also have "mset \<dots> = mset (map res_metrics (?score (filter has_user annotated_data)))"
    using map_filter_mset_cong [OF perm, of "score_instance ?lookup"] by simp
  finally show ?thesis
    by (simp add: scored_metrics_def)
qed

lemmas scoring_defs = score_main_def user_results_of_def group_by_user_def original_lookup_of_def
  compute_user_metrics_def score_instance_def extract_model_keywords_def
  extract_annotated_keywords_def compute_metrics_def all_instance_metrics_of_def
  compute_aggregate_metrics_def collect_values_def summarise_def dd_get_def py_or_def
  map_filter_def

lemma ex_overall:
  "overall_aggregate_metrics (score_main overlap_example_original overlap_example_annotated) ''f1_mean''
     = Some (3 / 4)"
  by (simp add: scoring_defs overlap_example_original_def overlap_example_annotated_def Let_def)

lemma ex_per_user:
  "map (\<lambda>(uid, r). (uid, aggregate_metrics r ''f1_mean''))
       (per_user (score_main overlap_example_original overlap_example_annotated))
     = [(''A'', Some 0), (''B'', Some 1)]"
  by (simp add: scoring_defs overlap_example_original_def overlap_example_annotated_def Let_def)


lemma ex_counts:
  "map (\<lambda>(uid, r). (uid, total_instances r))
       (per_user (score_main overlap_example_original overlap_example_annotated))
     = [(''A'', 1), (''B'', 3)]"
  by (simp add: scoring_defs overlap_example_original_def overlap_example_annotated_def Let_def)

text \<open>
  Claim C3. The overall aggregate is the aggregation function applied to the flat list
  of the metrics of the scored instances of all annotators: the list that the scoring
  run aggregates holds the metrics of every scored instance exactly once. On the example
  (annotator \<open>A\<close> with one scored instance, annotator \<open>B\<close> with three) the overall F1
  mean is 0.75, while the per-annotator F1 means are 0 and 1, whose unweighted average
  is 0.5.
\<close>

theorem overall_is_flat_aggregate:
  "overall_aggregate_metrics (score_main original_data annotated_data)
     = compute_aggregate_metrics
         (all_instance_metrics_of (per_user (score_main original_data annotated_data)))
   \<and> mset (all_instance_metrics_of (per_user (score_main original_data annotated_data)))
       = mset (scored_metrics (original_lookup_of original_data) annotated_data)
   \<and> overall_aggregate_metrics
         (score_main overlap_example_original overlap_example_annotated) ''f1_mean''
       = Some (3 / 4)
   \<and> map (\<lambda>(uid, r). (uid, total_instances r))
         (per_user (score_main overlap_example_original overlap_example_annotated))
       = [(''A'', 1), (''B'', 3)]
   \<and> map (\<lambda>(uid, r). (uid, aggregate_metrics r ''f1_mean''))
         (per_user (score_main overlap_example_original overlap_example_annotated))
       = [(''A'', Some 0), (''B'', Some 1)]
   \<and> arithmetic_mean [0, 1] = 1 / 2
   \<and> (3 / 4 :: real) \<noteq> 1 / 2"
proof -
  have "per_user (score_main original_data annotated_data)
      = user_results_of original_data annotated_data"
    by (simp add: score_main_def Let_def)
  then have "mset (all_instance_metrics_of (per_user (score_main original_data annotated_data)))
       = mset (scored_metrics (original_lookup_of original_data) annotated_data)"
    by (simp only: all_instance_metrics_perm)
  moreover have "overall_aggregate_metrics (score_main original_data annotated_data)
     = compute_aggregate_metrics
         (all_instance_metrics_of (per_user (score_main original_data annotated_data)))"
    by (simp add: score_main_def Let_def)
  moreover have "arithmetic_mean [0, 1] = 1 / 2"
    by (simp add: arithmetic_mean_def)
  moreover have "(3 / 4 :: real) \<noteq> 1 / 2"
    by simp
  ultimately show ?thesis
    using ex_overall ex_counts ex_per_user by (simp only: simp_thms)
qed

end
